theory Spec2Isabelle
  imports Complex_Main
begin

section \<open>Values shared by the scraper and the enrichment engine\<close>

text \<open>
  Python \<open>float\<close> values are modelled by \<open>real\<close>: a parsed token denotes its exact decimal
  value. The arithmetic of the enrichment engine rounds to binary64, as described there.
  Strings are \<open>char list\<close> restricted to ASCII: \<open>\d\<close> is
  \<open>0\<close>..\<open>9\<close>, \<open>str.lower\<close> maps \<open>A\<close>..\<open>Z\<close> and \<open>str.strip\<close> removes ASCII white space.
\<close>

datatype json =
    JNull
  | JBool bool
  | JNum real
  | JStr string
  | JArr "json list"
  | JObj "(string \<times> json) list"

datatype py_error = KeyError | TypeError | ValueError | FileNotFoundError | JSONDecodeError

type_synonym pydict = "(string \<times> json) list"

subsection \<open>String primitives\<close>

definition is_digit :: "char \<Rightarrow> bool" where
  "is_digit c = (let n = (of_char c :: nat) in 48 \<le> n \<and> n \<le> 57)"

definition is_upper :: "char \<Rightarrow> bool" where
  "is_upper c = (let n = (of_char c :: nat) in 65 \<le> n \<and> n \<le> 90)"

definition is_space :: "char \<Rightarrow> bool" where
  "is_space c = (let n = (of_char c :: nat) in (9 \<le> n \<and> n \<le> 13) \<or> (28 \<le> n \<and> n \<le> 32))"

text \<open>\<open>A\<close>..\<open>Z\<close> differ from \<open>a\<close>..\<open>z\<close> in bit 5 only.\<close>

fun lower_char :: "char \<Rightarrow> char" where
  "lower_char (Char b0 b1 b2 b3 b4 b5 b6 b7) =
     (if is_upper (Char b0 b1 b2 b3 b4 b5 b6 b7) then Char b0 b1 b2 b3 b4 True b6 b7
      else Char b0 b1 b2 b3 b4 b5 b6 b7)"

definition lower :: "string \<Rightarrow> string" where
  "lower s = map lower_char s"

definition strip :: "string \<Rightarrow> string" where
  "strip s = rev (dropWhile is_space (rev (dropWhile is_space s)))"

definition remove_commas :: "string \<Rightarrow> string" where
  "remove_commas s = filter (\<lambda>c. c \<noteq> CHR '','') s"

fun starts_with :: "string \<Rightarrow> string \<Rightarrow> bool" where
  "starts_with s [] = True"
| "starts_with [] (p # ps) = False"
| "starts_with (c # cs) (p # ps) = (c = p \<and> starts_with cs ps)"

text \<open>\<open>contains s pat\<close> is Python's \<open>pat in s\<close>.\<close>

fun contains :: "string \<Rightarrow> string \<Rightarrow> bool" where
  "contains [] pat = (pat = [])"
| "contains (c # cs) pat = (starts_with (c # cs) pat \<or> contains cs pat)"

subsection \<open>The regular expressions and \<open>float\<close>\<close>

text \<open>
  \<open>re.search\<close> for a pattern \<open>C+\.?\d*\<close>, where \<open>C\<close> is a character class that contains
  the digits: the leftmost match starts at the first character of class \<open>C\<close>, takes the
  longest run of \<open>C\<close>, then a dot when one follows, then the longest run of digits. The
  result is \<open>group(0)\<close>.
\<close>

definition number_search :: "(char \<Rightarrow> bool) \<Rightarrow> string \<Rightarrow> string option" where
  "number_search cls s =
     (let r = dropWhile (\<lambda>c. \<not> cls c) s
      in if r = [] then None
         else
           (let head_run = takeWhile cls r; rest = dropWhile cls r
            in case rest of
                 [] \<Rightarrow> Some head_run
               | c # rest' \<Rightarrow>
                   if c = CHR ''.'' then Some (head_run @ [c] @ takeWhile is_digit rest')
                   else Some head_run))"

definition digit_val :: "char \<Rightarrow> nat" where
  "digit_val c = of_char c - 48"

definition digits_val :: "string \<Rightarrow> nat" where
  "digits_val ds = foldl (\<lambda>a c. 10 * a + digit_val c) 0 ds"

definition decimal_value :: "string \<Rightarrow> string \<Rightarrow> real" where
  "decimal_value ip fp = of_nat (digits_val ip) + of_nat (digits_val fp) / 10 ^ length fp"

text \<open>
  \<open>float(token)\<close> on the tokens the two patterns can produce: digits, optionally a dot
  and more digits. On any other token of these patterns (one with a comma in it)
  \<open>float\<close> raises \<open>ValueError\<close>, which is \<open>None\<close> here.
\<close>

definition py_float :: "string \<Rightarrow> real option" where
  "py_float tok =
     (let ip = takeWhile is_digit tok; r = dropWhile is_digit tok
      in if ip = [] then None
         else case r of
                [] \<Rightarrow> Some (decimal_value ip [])
              | c # fp \<Rightarrow>
                  if c = CHR ''.'' \<and> list_all is_digit fp then Some (decimal_value ip fp)
                  else None)"

text \<open>
  \<open>re.search(r'only (\d+) left', s)\<close>: a match at the start of \<open>s\<close> is \<open>only\<close>, a space,
  the longest run of digits (a shorter run would be followed by a digit, not a space),
  a space and \<open>left\<close>; the search takes the leftmost position with a match.
\<close>

definition match_only_left :: "string \<Rightarrow> string option" where
  "match_only_left s =
     (if starts_with s ''only '' then
        (let r = drop 5 s; ds = takeWhile is_digit r; r' = dropWhile is_digit r
         in if ds \<noteq> [] \<and> starts_with r' '' left'' then Some (''only '' @ ds @ '' left'')
            else None)
      else None)"

fun search_only_left :: "string \<Rightarrow> string option" where
  "search_only_left [] = None"
| "search_only_left (c # cs) =
     (case match_only_left (c # cs) of
        Some m \<Rightarrow> Some m
      | None \<Rightarrow> search_only_left cs)"

section \<open>DataExtractor (stealth_scraper.py)\<close>

definition extract_price :: "string \<Rightarrow> real option" where
  "extract_price price_text =
     (if price_text = [] \<or> price_text = ''N/A'' then None
      else case number_search (\<lambda>c. is_digit c \<or> c = CHR '','') (remove_commas price_text) of
             None \<Rightarrow> None
           | Some tok \<Rightarrow> py_float tok)"

definition word_ratings :: "(string \<times> real) list" where
  "word_ratings =
     [(''one'', 1.0), (''two'', 2.0), (''three'', 3.0), (''four'', 4.0), (''five'', 5.0)]"

fun word_rating_loop :: "string \<Rightarrow> (string \<times> real) list \<Rightarrow> real option" where
  "word_rating_loop text [] = None"
| "word_rating_loop text ((word, val) # rest) =
     (if contains (lower text) word then Some val else word_rating_loop text rest)"

definition extract_rating :: "string \<Rightarrow> real option" where
  "extract_rating rating_text =
     (if rating_text = [] \<or> rating_text = ''N/A'' then None
      else case number_search is_digit rating_text of
             None \<Rightarrow> word_rating_loop rating_text word_ratings
           | Some tok \<Rightarrow>
               (case py_float tok of
                  Some rating \<Rightarrow> Some (min rating 5.0)
                | None \<Rightarrow> word_rating_loop rating_text word_ratings))"

text \<open>The result dict, keys in the order of the source's dict literals.\<close>

definition extract_stock_info :: "string \<Rightarrow> pydict" where
  "extract_stock_info availability_text =
     (if availability_text = [] \<or> availability_text = ''N/A'' then
        [(''in_stock'', JNull), (''scarcity_signal'', JNull)]
      else
        (let availability_lower = lower availability_text;
             in_stock = list_ex (\<lambda>phrase. contains availability_lower phrase)
                          [''in stock'', ''available'', ''ready to ship''];
             scarcity_match = search_only_left availability_lower;
             scarcity_signal = (case scarcity_match of Some m \<Rightarrow> JStr m | None \<Rightarrow> JNull)
         in [(''in_stock'', JBool in_stock),
             (''scarcity_signal'', scarcity_signal),
             (''raw_text'', JStr availability_text)]))"

text \<open>
  What the extractor functions are specified to find, in the words of the specification:
  \<open>occurs w s\<close> says that \<open>w\<close> is a substring of \<open>s\<close>; \<open>first_number_token s ip fp\<close> says
  that the first decimal-number token of \<open>s\<close> has the integer digits \<open>ip\<close> and the fraction
  digits \<open>fp\<close>: no digit stands before it, \<open>ip\<close> is a longest run of digits, and \<open>fp\<close> is
  the longest run of digits after a dot that follows \<open>ip\<close> directly (empty without a dot).
\<close>

definition occurs :: "string \<Rightarrow> string \<Rightarrow> bool" where
  "occurs w s \<longleftrightarrow> (\<exists>pre post. s = pre @ w @ post)"

definition first_number_token :: "string \<Rightarrow> string \<Rightarrow> string \<Rightarrow> bool" where
  "first_number_token s ip fp \<longleftrightarrow>
     ip \<noteq> [] \<and> list_all is_digit ip \<and> list_all is_digit fp \<and>
     (\<exists>pre post. list_all (\<lambda>c. \<not> is_digit c) pre \<and>
        ((s = pre @ ip @ post \<and> fp = [] \<and>
            (case post of [] \<Rightarrow> True | c # _ \<Rightarrow> \<not> is_digit c \<and> c \<noteq> CHR ''.''))
         \<or> (s = pre @ ip @ ''.'' @ fp @ post \<and>
            (case post of [] \<Rightarrow> True | c # _ \<Rightarrow> \<not> is_digit c))))"

section \<open>StealthScraper (stealth_scraper.py)\<close>

text \<open>
  An \<open>ElementHandle\<close> is modelled by what \<open>query_selector\<close> does for each selector: it
  raises, finds nothing, or finds a target whose \<open>inner_text()\<close> raises (\<open>None\<close>) or
  returns a string.
\<close>

datatype query_result = QueryError | NoMatch | Match "string option"

type_synonym element = "string \<Rightarrow> query_result"

definition extract_text :: "element \<Rightarrow> string \<Rightarrow> string \<Rightarrow> string" where
  "extract_text element selector default' =
     (case element selector of
        QueryError \<Rightarrow> default'
      | NoMatch \<Rightarrow> default'
      | Match None \<Rightarrow> default'
      | Match (Some inner) \<Rightarrow> (let text = strip inner in if text \<noteq> [] then text else default'))"

record target_config =
  url :: string
  kind :: string
  selectors :: "string \<rightharpoonup> string"

text \<open>
  A product dict. The three enrichment keys are absent (\<open>None\<close>) until the enrichment
  engine sets them; the values a provider returns for them are arbitrary JSON.
\<close>

record product =
  id' :: string
  name :: string
  price :: "real option"
  price_raw :: string
  rating :: "real option"
  rating_raw :: string
  stock_info :: pydict
  source :: string
  source_url :: string
  scraped_at :: string
  ai_category :: "json option"
  ai_reasoning :: "json option"
  enriched_at :: "string option"

definition digit_char :: "nat \<Rightarrow> char" where
  "digit_char d = ''0123456789'' ! d"

text \<open>\<open>str(n)\<close> for a natural number, as the f-string of the product id renders it.\<close>

fun str_nat :: "nat \<Rightarrow> string" where
  "str_nat n = (if n < 10 then [digit_char n] else str_nat (n div 10) @ [digit_char (n mod 10)])"

declare str_nat.simps [simp del]

text \<open>\<open>xs[:stop]\<close>: a negative \<open>stop\<close> counts from the end of the list.\<close>

definition py_slice_to :: "'a list \<Rightarrow> int \<Rightarrow> 'a list" where
  "py_slice_to xs stop =
     (if stop < 0 then take (length xs - nat (- stop)) xs else take (nat stop) xs)"

text \<open>
  The body of the \<open>try\<close> block for one element. The four selector look-ups raise
  \<open>KeyError\<close> when the target's selector dict lacks the key; \<open>clock idx\<close> is what
  \<open>datetime.now().isoformat()\<close> returns while element \<open>idx\<close> is processed.
\<close>

definition extract_product ::
  "string \<Rightarrow> target_config \<Rightarrow> (nat \<Rightarrow> string) \<Rightarrow> nat \<Rightarrow> element \<Rightarrow> py_error + product" where
  "extract_product target_name cfg clock idx element =
     (case selectors cfg ''name'' of
        None \<Rightarrow> Inl KeyError
      | Some sel_name \<Rightarrow>
     (case selectors cfg ''price'' of
        None \<Rightarrow> Inl KeyError
      | Some sel_price \<Rightarrow>
     (case selectors cfg ''rating'' of
        None \<Rightarrow> Inl KeyError
      | Some sel_rating \<Rightarrow>
     (case selectors cfg ''availability'' of
        None \<Rightarrow> Inl KeyError
      | Some sel_availability \<Rightarrow>
          (let name = extract_text element sel_name ''N/A'';
               price_text = extract_text element sel_price ''N/A'';
               rating_text = extract_text element sel_rating ''N/A'';
               availability_text = extract_text element sel_availability ''N/A''
           in Inr \<lparr> id' = target_name @ ''_'' @ str_nat (idx + 1),
                    name = name,
                    price = extract_price price_text,
                    price_raw = price_text,
                    rating = extract_rating rating_text,
                    rating_raw = rating_text,
                    stock_info = extract_stock_info availability_text,
                    source = target_name,
                    source_url = url cfg,
                    scraped_at = clock idx,
                    ai_category = None,
                    ai_reasoning = None,
                    enriched_at = None \<rparr>)))))"

text \<open>
  The \<open>for idx, element in enumerate(...)\<close> loop with its \<open>try\<close>/\<open>except Exception:
  continue\<close>, for any loop body: a body that raises leaves \<open>products\<close> as it is.
\<close>

fun extract_loop ::
  "(nat \<Rightarrow> 'e \<Rightarrow> py_error + 'p) \<Rightarrow> nat \<Rightarrow> 'e list \<Rightarrow> 'p list \<Rightarrow> 'p list" where
  "extract_loop body idx [] products = products"
| "extract_loop body idx (element # rest) products =
     (case body idx element of
        Inr product \<Rightarrow> extract_loop body (idx + 1) rest (products @ [product])
      | Inl e \<Rightarrow> extract_loop body (idx + 1) rest products)"

text \<open>\<open>page\<close> is \<open>page.query_selector_all\<close>: the elements that match a selector.\<close>

definition extract_products ::
  "string \<Rightarrow> target_config \<Rightarrow> (nat \<Rightarrow> string) \<Rightarrow> (string \<Rightarrow> element list) \<Rightarrow> int
     \<Rightarrow> py_error + product list" where
  "extract_products target_name cfg clock page max_products =
     (case selectors cfg ''product_container'' of
        None \<Rightarrow> Inl KeyError
      | Some container \<Rightarrow>
          (let product_elements = page container
           in Inr (extract_loop (extract_product target_name cfg clock) 0
                     (py_slice_to product_elements max_products) [])))"

text \<open>\<open>ScrapingConfig.TARGET_URLS['books_toscrape']\<close>.\<close>

definition books_toscrape :: target_config where
  "books_toscrape =
     \<lparr> url = ''https://books.toscrape.com/catalogue/category/books_1/index.html'',
       kind = ''static'',
       selectors = [''product_container'' \<mapsto> ''article.product_pod'',
                    ''name'' \<mapsto> ''h3 a'',
                    ''price'' \<mapsto> ''p.price_color'',
                    ''rating'' \<mapsto> ''p.star-rating'',
                    ''availability'' \<mapsto> ''p.availability''] \<rparr>"

text \<open>A product container of the books page, a page with five of them, and a clock.\<close>

definition sample_element :: element where
  "sample_element selector =
     (if selector = ''h3 a'' then Match (Some ''A Light in the ...'')
      else if selector = ''p.price_color'' then Match (Some ''$51.77'')
      else if selector = ''p.star-rating'' then Match (Some '''')
      else if selector = ''p.availability'' then Match (Some ''  In stock  '')
      else NoMatch)"

definition sample_page :: "string \<Rightarrow> element list" where
  "sample_page selector =
     (if selector = ''article.product_pod'' then replicate 5 sample_element else [])"

definition sample_clock :: "nat \<Rightarrow> string" where
  "sample_clock idx = ''2024-01-01T00:00:00''"

text \<open>A loop body that raises for the second element and returns the ordinal otherwise.\<close>

definition second_fails :: "nat \<Rightarrow> element \<Rightarrow> py_error + nat" where
  "second_fails idx element = (if idx = 1 then Inl TypeError else Inr (idx + 1))"

text \<open>
  \<open>save_to_json\<close> and the loading step of \<open>enrich_from_file\<close>. The file system is a map
  from paths to file contents. \<open>json.dump\<close> and \<open>json.load\<close> are library functions and
  are parameters here: \<open>json_dump\<close> renders a document as text and \<open>json_load\<close> parses a
  text (\<open>None\<close> when it raises). A missing \<open>products\<close> key of a parsed document is \<open>None\<close>.
\<close>

record metadata =
  target :: string
  total_products :: nat
  meta_scraped_at :: string

record raw_output =
  doc_metadata :: "metadata option"
  doc_products :: "product list option"

definition raw_data_path :: string where
  "raw_data_path = ''output/products_raw.json''"

text \<open>\<open>path or ScrapingConfig.OUTPUT_PATHS['raw_data']\<close>: \<open>None\<close> and the empty string are falsy.\<close>

definition path_or_default :: "string option \<Rightarrow> string" where
  "path_or_default path = (case path of None \<Rightarrow> raw_data_path | Some p \<Rightarrow> if p = [] then raw_data_path else p)"

definition save_to_json ::
  "(raw_output \<Rightarrow> 't) \<Rightarrow> string \<Rightarrow> string \<Rightarrow> product list \<Rightarrow> string option
     \<Rightarrow> (string \<rightharpoonup> 't) \<Rightarrow> (string \<rightharpoonup> 't)" where
  "save_to_json json_dump target_name now products output_path fs =
     (let output_path = path_or_default output_path
      in fs(output_path \<mapsto>
           json_dump \<lparr> doc_metadata = Some \<lparr> target = target_name,
                                              total_products = length products,
                                              meta_scraped_at = now \<rparr>,
                        doc_products = Some products \<rparr>))"

definition load_products ::
  "('t \<Rightarrow> raw_output option) \<Rightarrow> string option \<Rightarrow> (string \<rightharpoonup> 't) \<Rightarrow> py_error + product list" where
  "load_products json_load input_path fs =
     (let input_path = path_or_default input_path
      in case fs input_path of
           None \<Rightarrow> Inl FileNotFoundError
         | Some text \<Rightarrow>
             (case json_load text of
                None \<Rightarrow> Inl JSONDecodeError
              | Some data \<Rightarrow>
                  Inr (case doc_products data of Some products \<Rightarrow> products | None \<Rightarrow> [])))"

text \<open>
  The \<open>json\<close> library, after the conversion table of its documentation: \<open>json.dump\<close>
  writes a dict as an object with its keys in insertion order, a list as an array, a
  \<open>str\<close> as a string, a \<open>float\<close> or \<open>int\<close> as a number and \<open>None\<close> as \<open>null\<close>, and
  \<open>json.load\<close> reads each of them back as what it was written from. The content of a
  file written by \<open>json.dump\<close> is kept here as the JSON value that the text denotes.
  \<open>product_json\<close> is the product dict as a JSON value: the ten keys that
  \<open>_extract_products\<close> sets, in its order, then the enrichment keys that are present.
\<close>

definition opt_num :: "real option \<Rightarrow> json" where
  "opt_num x = (case x of None \<Rightarrow> JNull | Some v \<Rightarrow> JNum v)"

definition opt_key :: "string \<Rightarrow> json option \<Rightarrow> (string \<times> json) list" where
  "opt_key k v = (case v of None \<Rightarrow> [] | Some j \<Rightarrow> [(k, j)])"

definition product_json :: "product \<Rightarrow> json" where
  "product_json p =
     JObj ([(''id'', JStr (id' p)), (''name'', JStr (name p)),
            (''price'', opt_num (price p)), (''price_raw'', JStr (price_raw p)),
            (''rating'', opt_num (rating p)), (''rating_raw'', JStr (rating_raw p)),
            (''stock_info'', JObj (stock_info p)), (''source'', JStr (source p)),
            (''source_url'', JStr (source_url p)), (''scraped_at'', JStr (scraped_at p))]
           @ opt_key ''ai_category'' (ai_category p)
           @ opt_key ''ai_reasoning'' (ai_reasoning p)
           @ opt_key ''enriched_at'' (map_option JStr (enriched_at p)))"

definition metadata_json :: "metadata \<Rightarrow> json" where
  "metadata_json m =
     JObj [(''target'', JStr (target m)), (''total_products'', JNum (real (total_products m))),
           (''scraped_at'', JStr (meta_scraped_at m))]"

definition document_json :: "raw_output \<Rightarrow> json" where
  "document_json d =
     JObj (opt_key ''metadata'' (map_option metadata_json (doc_metadata d))
           @ opt_key ''products'' (map_option (\<lambda>ps. JArr (map product_json ps)) (doc_products d)))"

text \<open>
  Reading a JSON value back as a document. A value that is not of the shape of a raw
  output document has no counterpart in \<open>raw_output\<close> and is \<open>None\<close>.
\<close>

definition get_str :: "(string \<times> json) list \<Rightarrow> string \<Rightarrow> string option" where
  "get_str kv k = (case map_of kv k of Some (JStr s) \<Rightarrow> Some s | _ \<Rightarrow> None)"

definition get_num :: "(string \<times> json) list \<Rightarrow> string \<Rightarrow> real option option" where
  "get_num kv k =
     (case map_of kv k of Some JNull \<Rightarrow> Some None | Some (JNum x) \<Rightarrow> Some (Some x) | _ \<Rightarrow> None)"

definition get_nat :: "(string \<times> json) list \<Rightarrow> string \<Rightarrow> nat option" where
  "get_nat kv k =
     (case map_of kv k of
        Some (JNum x) \<Rightarrow> if x = real (nat \<lfloor>x\<rfloor>) then Some (nat \<lfloor>x\<rfloor>) else None
      | _ \<Rightarrow> None)"

definition get_obj :: "(string \<times> json) list \<Rightarrow> string \<Rightarrow> (string \<times> json) list option" where
  "get_obj kv k = (case map_of kv k of Some (JObj o') \<Rightarrow> Some o' | _ \<Rightarrow> None)"

definition get_opt_str :: "(string \<times> json) list \<Rightarrow> string \<Rightarrow> string option option" where
  "get_opt_str kv k =
     (case map_of kv k of None \<Rightarrow> Some None | Some (JStr s) \<Rightarrow> Some (Some s) | _ \<Rightarrow> None)"

fun json_product :: "json \<Rightarrow> product option" where
  "json_product (JObj kv) =
     Option.bind (get_str kv ''id'') (\<lambda>i.
     Option.bind (get_str kv ''name'') (\<lambda>n.
     Option.bind (get_num kv ''price'') (\<lambda>p.
     Option.bind (get_str kv ''price_raw'') (\<lambda>pr.
     Option.bind (get_num kv ''rating'') (\<lambda>r.
     Option.bind (get_str kv ''rating_raw'') (\<lambda>rr.
     Option.bind (get_obj kv ''stock_info'') (\<lambda>si.
     Option.bind (get_str kv ''source'') (\<lambda>s.
     Option.bind (get_str kv ''source_url'') (\<lambda>su.
     Option.bind (get_str kv ''scraped_at'') (\<lambda>sa.
     Option.bind (get_opt_str kv ''enriched_at'') (\<lambda>ea.
       Some \<lparr> id' = i, name = n, price = p, price_raw = pr, rating = r, rating_raw = rr,
              stock_info = si, source = s, source_url = su, scraped_at = sa,
              ai_category = map_of kv ''ai_category'',
              ai_reasoning = map_of kv ''ai_reasoning'',
              enriched_at = ea \<rparr>)))))))))))"
| "json_product _ = None"

fun json_metadata :: "json \<Rightarrow> metadata option" where
  "json_metadata (JObj kv) =
     Option.bind (get_str kv ''target'') (\<lambda>t.
     Option.bind (get_nat kv ''total_products'') (\<lambda>n.
     Option.bind (get_str kv ''scraped_at'') (\<lambda>sa.
       Some \<lparr> target = t, total_products = n, meta_scraped_at = sa \<rparr>)))"
| "json_metadata _ = None"

fun json_products :: "json \<Rightarrow> product list option" where
  "json_products (JArr js) = those (map json_product js)"
| "json_products _ = None"

text \<open>A key that is absent stays absent; a key that is present has to be readable.\<close>

definition get_opt :: "(json \<Rightarrow> 'a option) \<Rightarrow> (string \<times> json) list \<Rightarrow> string \<Rightarrow> 'a option option" where
  "get_opt read kv k =
     (case map_of kv k of None \<Rightarrow> Some None | Some j \<Rightarrow> map_option Some (read j))"

fun json_document :: "json \<Rightarrow> raw_output option" where
  "json_document (JObj kv) =
     Option.bind (get_opt json_metadata kv ''metadata'') (\<lambda>m.
     Option.bind (get_opt json_products kv ''products'') (\<lambda>ps.
       Some \<lparr> doc_metadata = m, doc_products = ps \<rparr>))"
| "json_document _ = None"

section \<open>AIEnrichmentEngine (ai_enrichment.py)\<close>

subsection \<open>Binary64 arithmetic\<close>

text \<open>
  A Python float is a binary64 number. A finite one is given here by the real number
  it denotes, and a price is always finite. The result of an arithmetic operation is
  the exact result rounded to the nearest binary64 number, ties to even: 53
  significant bits, exponents from -1022 (with gradual underflow below) to 1023, and
  an infinity when the rounded value reaches \<open>2 ^ 1024\<close>. The sign of a zero is not
  recorded; no comparison depends on it.
\<close>

datatype fval = Finite real | PInf | NInf | NaN

definition round_half_even :: "real \<Rightarrow> int" where
  "round_half_even m =
     (let f = \<lfloor>m\<rfloor>; d = m - of_int f
      in if d < 1 / 2 then f else if 1 / 2 < d then f + 1 else if even f then f else f + 1)"

text \<open>
  The exponent of a positive number \<open>a\<close>: the \<open>e\<close> with \<open>2 ^ e \<le> a < 2 ^ (e + 1)\<close>, found
  by halving or doubling \<open>a\<close>, and kept between -1022, the exponent of the subnormal
  numbers, and 1024, where every number overflows.
\<close>

function exp_up :: "real \<Rightarrow> int \<Rightarrow> int" where
  "exp_up a e = (if 2 \<le> a \<and> e < 1024 then exp_up (a / 2) (e + 1) else e)"
  by pat_completeness auto
termination
  by (relation "measure (\<lambda>(a, e). nat (1024 - e))") auto

function exp_down :: "real \<Rightarrow> int \<Rightarrow> int" where
  "exp_down a e = (if a < 1 \<and> - 1022 < e then exp_down (a * 2) (e - 1) else e)"
  by pat_completeness auto
termination
  by (relation "measure (\<lambda>(a, e). nat (e + 1022))") auto

declare exp_up.simps [simp del] exp_down.simps [simp del]

definition exponent :: "real \<Rightarrow> int" where
  "exponent a = (if 1 \<le> a then exp_up a 0 else exp_down a 0)"

definition pow2 :: "int \<Rightarrow> real" where
  "pow2 k = (if 0 \<le> k then 2 ^ nat k else 1 / 2 ^ nat (- k))"

definition overflow_threshold :: real where
  "overflow_threshold = 2 ^ 1024"

text \<open>
  The spacing of the binary64 numbers with exponent \<open>e\<close> is \<open>2 ^ (e - 52)\<close>; a number is
  rounded to the nearest multiple of it.
\<close>

definition round64 :: "real \<Rightarrow> fval" where
  "round64 x =
     (if x = 0 then Finite 0
      else
        (let a = \<bar>x\<bar>;
             e = exponent a;
             ulp = pow2 (e - 52);
             r = of_int (round_half_even (a / ulp)) * ulp
         in if overflow_threshold \<le> r then (if 0 < x then PInf else NInf)
            else Finite (if 0 < x then r else - r)))"

text \<open>
  \<open>acc + price\<close>, \<open>total / len(prices)\<close> and \<open>avg_price * c\<close> for a finite price, a list
  length and a float literal \<open>c\<close>, and the comparison \<open>price < threshold\<close>.
\<close>

fun fadd :: "fval \<Rightarrow> real \<Rightarrow> fval" where
  "fadd (Finite a) b = round64 (a + b)"
| "fadd PInf b = PInf"
| "fadd NInf b = NInf"
| "fadd NaN b = NaN"

fun fdiv :: "fval \<Rightarrow> nat \<Rightarrow> fval" where
  "fdiv (Finite a) n = round64 (a / real n)"
| "fdiv PInf n = PInf"
| "fdiv NInf n = NInf"
| "fdiv NaN n = NaN"

fun fmul :: "fval \<Rightarrow> real \<Rightarrow> fval" where
  "fmul (Finite a) c = round64 (a * c)"
| "fmul PInf c = (if 0 < c then PInf else if c < 0 then NInf else NaN)"
| "fmul NInf c = (if 0 < c then NInf else if c < 0 then PInf else NaN)"
| "fmul NaN c = NaN"

fun flt :: "real \<Rightarrow> fval \<Rightarrow> bool" where
  "flt x (Finite t) = (x < t)"
| "flt x PInf = True"
| "flt x NInf = False"
| "flt x NaN = False"

text \<open>The binary64 numbers that the literals \<open>0.7\<close> and \<open>1.3\<close> denote.\<close>

definition float_0_7 :: real where
  "float_0_7 = 3152519739159347 / 2 ^ 52"

definition float_1_3 :: real where
  "float_1_3 = 5854679515581645 / 2 ^ 52"

record price_stats =
  min' :: real
  max' :: real
  avg :: fval

text \<open>What the prompt says about one product: its id, name, price and rating.\<close>

type_synonym summary = "string \<times> string \<times> real option \<times> real option"

text \<open>
  The environment of one run. \<open>provider k prompt\<close> is the outcome of the \<open>k\<close>-th provider
  call of the run, made with the price statistics and product summaries the prompt is
  built from: the JSON value that \<open>json.loads\<close> parses from the response, or \<open>None\<close>
  when \<open>_call_llm\<close> or \<open>json.loads\<close> raises. \<open>clock k\<close> is the \<open>k\<close>-th reading of
  \<open>datetime.now().isoformat()\<close>. The state records the prompts sent and the number
  of clock readings so far.
\<close>

record env =
  provider :: "nat \<Rightarrow> price_stats \<times> summary list \<Rightarrow> json option"
  clock :: "nat \<Rightarrow> string"

record world =
  llm_calls :: "(price_stats \<times> summary list) list"
  ticks :: nat

text \<open>\<open>product.get('price', 0)\<close> is \<open>None\<close> for an unpriced product, and \<open>None < float\<close> raises.\<close>

definition fallback_categorization :: "product \<Rightarrow> price_stats \<Rightarrow> py_error + string" where
  "fallback_categorization product stats =
     (case price product of
        None \<Rightarrow> Inl TypeError
      | Some price' \<Rightarrow>
          (let avg_price = avg stats
           in if flt price' (fmul avg_price float_0_7) then Inr ''Budget''
              else if flt price' (fmul avg_price float_1_3) then Inr ''Mid Range''
              else Inr ''High End''))"

definition stamp :: "product \<Rightarrow> json \<Rightarrow> json \<Rightarrow> string \<Rightarrow> product" where
  "stamp product category reasoning now =
     product \<lparr> ai_category := Some category, ai_reasoning := Some reasoning,
               enriched_at := Some now \<rparr>"

definition apply_fallback ::
  "env \<Rightarrow> product \<Rightarrow> price_stats \<Rightarrow> world \<Rightarrow> py_error + (product \<times> world)" where
  "apply_fallback e product stats w =
     (case fallback_categorization product stats of
        Inl err \<Rightarrow> Inl err
      | Inr category \<Rightarrow>
          Inr (stamp product (JStr category)
                 (JStr ''Rule-based categorization (AI unavailable)'') (clock e (ticks w)),
               w \<lparr> ticks := ticks w + 1 \<rparr>))"

text \<open>\<open>[self._apply_fallback(p, price_stats) for p in products]\<close>, left to right.\<close>

fun apply_fallback_all ::
  "env \<Rightarrow> product list \<Rightarrow> price_stats \<Rightarrow> world \<Rightarrow> py_error + (product list \<times> world)" where
  "apply_fallback_all e [] stats w = Inr ([], w)"
| "apply_fallback_all e (p # ps) stats w =
     (case apply_fallback e p stats w of
        Inl err \<Rightarrow> Inl err
      | Inr (p', w') \<Rightarrow>
          (case apply_fallback_all e ps stats w' of
             Inl err \<Rightarrow> Inl err
           | Inr (ps', w'') \<Rightarrow> Inr (p' # ps', w'')))"

text \<open>
  \<open>{c['id']: c for c in response_json['categorizations']}\<close>; \<open>None\<close> when it raises. A list
  or a dict is not hashable; iterating a dict yields its keys and iterating a string its
  characters, neither of which can be subscripted by \<open>'id'\<close>. Product ids are strings, so
  only the string keys of the result are ever looked up.
\<close>

fun hashable :: "json \<Rightarrow> bool" where
  "hashable (JArr _) = False"
| "hashable (JObj _) = False"
| "hashable _ = True"

fun build_categorizations :: "json list \<Rightarrow> (json \<rightharpoonup> json) \<Rightarrow> (json \<rightharpoonup> json) option" where
  "build_categorizations [] m = Some m"
| "build_categorizations (c # cs) m =
     (case c of
        JObj kvs \<Rightarrow>
          (case map_of kvs ''id'' of
             None \<Rightarrow> None
           | Some k \<Rightarrow> if hashable k then build_categorizations cs (m(k \<mapsto> c)) else None)
      | _ \<Rightarrow> None)"

definition iterate :: "json \<Rightarrow> json list option" where
  "iterate j =
     (case j of
        JArr items \<Rightarrow> Some items
      | JObj kvs \<Rightarrow> Some (map (\<lambda>kv. JStr (fst kv)) kvs)
      | JStr s \<Rightarrow> Some (map (\<lambda>c. JStr [c]) s)
      | _ \<Rightarrow> None)"

definition categorizations_of :: "json \<Rightarrow> (json \<rightharpoonup> json) option" where
  "categorizations_of response_json =
     (case response_json of
        JObj kvs \<Rightarrow>
          (case map_of kvs ''categorizations'' of
             None \<Rightarrow> None
           | Some cs \<Rightarrow>
               (case iterate cs of
                  None \<Rightarrow> None
                | Some items \<Rightarrow> build_categorizations items Map.empty))
      | _ \<Rightarrow> None)"

text \<open>
  The category and reasoning of one product inside the \<open>try\<close> block; \<open>None\<close> when a
  look-up of \<open>'category'\<close> or \<open>'reasoning'\<close>, or the fallback rule, raises.
\<close>

definition categorize_one ::
  "(json \<rightharpoonup> json) \<Rightarrow> price_stats \<Rightarrow> product \<Rightarrow> (json \<times> json) option" where
  "categorize_one categorizations stats product =
     (case categorizations (JStr (id' product)) of
        Some cat_data \<Rightarrow>
          (case cat_data of
             JObj kvs \<Rightarrow>
               (case map_of kvs ''category'' of
                  None \<Rightarrow> None
                | Some category \<Rightarrow>
                    (case map_of kvs ''reasoning'' of
                       None \<Rightarrow> None
                     | Some reasoning \<Rightarrow> Some (category, reasoning)))
           | _ \<Rightarrow> None)
      | None \<Rightarrow>
          (case fallback_categorization product stats of
             Inl err \<Rightarrow> None
           | Inr category \<Rightarrow>
               Some (JStr category, JStr ''Fallback categorization based on price'')))"

text \<open>
  The loop of the \<open>try\<close> block. \<open>Inl w\<close>: an exception was raised in state \<open>w\<close>, and the
  products enriched so far are dropped.
\<close>

fun enrich_parsed ::
  "env \<Rightarrow> (json \<rightharpoonup> json) \<Rightarrow> price_stats \<Rightarrow> product list \<Rightarrow> product list \<Rightarrow> world
     \<Rightarrow> world + (product list \<times> world)" where
  "enrich_parsed e categorizations stats [] enriched w = Inr (enriched, w)"
| "enrich_parsed e categorizations stats (product # rest) enriched w =
     (case categorize_one categorizations stats product of
        None \<Rightarrow> Inl w
      | Some (category, reasoning) \<Rightarrow>
          enrich_parsed e categorizations stats rest
            (enriched @ [stamp product category reasoning (clock e (ticks w))])
            (w \<lparr> ticks := ticks w + 1 \<rparr>))"

definition summarize :: "product \<Rightarrow> summary" where
  "summarize p = (id' p, name p, price p, rating p)"

definition enrich_batch ::
  "env \<Rightarrow> product list \<Rightarrow> price_stats \<Rightarrow> world \<Rightarrow> py_error + (product list \<times> world)" where
  "enrich_batch e products stats w =
     (let product_summary = map summarize products;
          prompt = (stats, product_summary);
          response = provider e (length (llm_calls w)) prompt;
          w1 = w \<lparr> llm_calls := llm_calls w @ [prompt] \<rparr>;
          attempt =
            (case response of
               None \<Rightarrow> Inl w1
             | Some response_json \<Rightarrow>
                 (case categorizations_of response_json of
                    None \<Rightarrow> Inl w1
                  | Some categorizations \<Rightarrow>
                      enrich_parsed e categorizations stats products [] w1))
      in case attempt of
           Inr result \<Rightarrow> Inr result
         | Inl w2 \<Rightarrow> apply_fallback_all e products stats w2)"

text \<open>
  \<open>min\<close>, \<open>max\<close> and the mean of a list of prices; \<open>min\<close> of an empty list raises.
  \<open>sum\<close> starts from 0 and adds the prices from left to right, rounding after each
  addition, as CPython 3.8 to 3.11 do; the total is divided by the length of the list
  and rounded. (From CPython 3.12 on \<open>sum\<close> also carries the rounding errors along and
  adds them at the end, which changes the total of some lists, and of none of the price
  lists used below.)
\<close>

fun price_statistics :: "real list \<Rightarrow> py_error + price_stats" where
  "price_statistics [] = Inl ValueError"
| "price_statistics (x # xs) =
     Inr \<lparr> min' = fold min xs x, max' = fold max xs x,
           avg = fdiv (foldl fadd (Finite 0) (x # xs)) (length (x # xs)) \<rparr>"

definition batch_size :: nat where
  "batch_size = 20"

text \<open>\<open>for i in range(0, len(valid_products), batch_size)\<close>, from position \<open>i\<close> on.\<close>

function batch_loop ::
  "env \<Rightarrow> price_stats \<Rightarrow> product list \<Rightarrow> nat \<Rightarrow> product list \<Rightarrow> world
     \<Rightarrow> py_error + (product list \<times> world)" where
  "batch_loop e stats valid_products i enriched_products w =
     (if i < length valid_products then
        (let batch = take batch_size (drop i valid_products)
         in case enrich_batch e batch stats w of
              Inl err \<Rightarrow> Inl err
            | Inr (enriched_batch, w') \<Rightarrow>
                batch_loop e stats valid_products (i + batch_size)
                  (enriched_products @ enriched_batch) w')
      else Inr (enriched_products, w))"
  by pat_completeness auto
termination
  by (relation "measure (\<lambda>(e, stats, valid_products, i, enriched_products, w).
        length valid_products - i)") (auto simp: batch_size_def)

declare batch_loop.simps [simp del]

definition categorize_products ::
  "env \<Rightarrow> product list \<Rightarrow> world \<Rightarrow> py_error + (product list \<times> world)" where
  "categorize_products e products w =
     (let valid_products = filter (\<lambda>p. price p \<noteq> None) products
      in if valid_products = [] then Inr (products, w)
         else
           (let prices = List.map_filter price valid_products
            in case price_statistics prices of
                 Inl err \<Rightarrow> Inl err
               | Inr stats \<Rightarrow>
                   (case batch_loop e stats valid_products 0 [] w of
                      Inl err \<Rightarrow> Inl err
                    | Inr (enriched_products, w') \<Rightarrow>
                        Inr (enriched_products @ filter (\<lambda>p. price p = None) products, w'))))"

text \<open>\<open>enriched_from p p'\<close>: \<open>p'\<close> is \<open>p\<close> with the three enrichment fields set and nothing else changed.\<close>

definition enriched_from :: "product \<Rightarrow> product \<Rightarrow> bool" where
  "enriched_from p p' \<longleftrightarrow>
     (\<exists>category reasoning now.
        p' = p \<lparr> ai_category := Some category, ai_reasoning := Some reasoning,
                  enriched_at := Some now \<rparr>)"

text \<open>A provider that always fails, a fresh state and a product with a given id and price.\<close>

definition failing_env :: env where
  "failing_env = \<lparr> provider = (\<lambda>k prompt. None), clock = (\<lambda>k. ''2024-01-01T00:00:00'') \<rparr>"

definition initial_world :: world where
  "initial_world = \<lparr> llm_calls = [], ticks = 0 \<rparr>"

definition sample_product :: "string \<Rightarrow> real option \<Rightarrow> product" where
  "sample_product i p =
     \<lparr> id' = i, name = ''A Light in the Attic'', price = p, price_raw = ''N/A'',
       rating = Some 3, rating_raw = ''Three'',
       stock_info = [(''in_stock'', JNull), (''scarcity_signal'', JNull)],
       source = ''books_toscrape'', source_url = url books_toscrape,
       scraped_at = ''2024-01-01T00:00:00'',
       ai_category = None, ai_reasoning = None, enriched_at = None \<rparr>"

text \<open>
  The category field that a result of the fallback rule is stored as.
\<close>

definition category_json :: "py_error + string \<Rightarrow> json option" where
  "category_json r = (case r of Inr category \<Rightarrow> Some (JStr category) | Inl err \<Rightarrow> None)"

text \<open>The binary64 numbers that \<open>2.03\<close>, \<open>3.77\<close>, \<open>5.8\<close> and \<open>2.9\<close> denote.\<close>

definition double_2_03 :: real where
  "double_2_03 = 4571153621781053 / 2 ^ 51"

definition double_3_77 :: real where
  "double_3_77 = 8489285297593385 / 2 ^ 51"

definition double_5_8 :: real where
  "double_5_8 = 6530219459687219 / 2 ^ 50"

definition double_2_9 :: real where
  "double_2_9 = 6530219459687219 / 2 ^ 51"

text \<open>The batches of the specification: consecutive slices of \<open>n\<close> elements.\<close>

fun batches :: "nat \<Rightarrow> 'a list \<Rightarrow> 'a list list" where
  "batches n [] = []"
| "batches n (x # xs) = take n (x # xs) # batches n (drop (n - 1) xs)"

section \<open>HumanBehaviorSimulator.scroll_to_bottom (human_behavior.py)\<close>

text \<open>
  The page is a state machine: \<open>scroll_height\<close> is what
  \<open>page.evaluate('document.body.scrollHeight')\<close> reports, \<open>scroll_by n\<close> is
  \<open>window.scrollBy(0, n)\<close>, and \<open>wait\<close> is what the page does during one \<open>time.sleep\<close>
  (the length of the sleep is not modelled). \<open>rand k\<close> is the \<open>k\<close>-th draw of the random
  source, from which \<open>random.randint(lo, hi)\<close> takes a value between \<open>lo\<close> and \<open>hi\<close>.
\<close>

record 's page =
  scroll_height :: "'s \<Rightarrow> int"
  scroll_by :: "int \<Rightarrow> 's \<Rightarrow> 's"
  wait :: "'s \<Rightarrow> 's"

definition randint :: "(nat \<Rightarrow> nat) \<Rightarrow> nat \<Rightarrow> int \<Rightarrow> int \<Rightarrow> int" where
  "randint rand k lo hi = lo + int (rand k mod nat (hi - lo + 1))"

text \<open>
  The \<open>while True\<close> loop in its \<open>k\<close>-th iteration. The result is the number of iterations
  made and the last page state; \<open>None\<close> is a loop that never leaves.
\<close>

partial_function (option) scroll_loop ::
  "'s page \<Rightarrow> (nat \<Rightarrow> nat) \<Rightarrow> nat \<Rightarrow> 's \<Rightarrow> int \<Rightarrow> (nat \<times> 's) option" where
  "scroll_loop pg rand k s last_height =
     (let scroll_increment = randint rand k 300 800;
          s' = wait pg (scroll_by pg scroll_increment s);
          new_height = scroll_height pg s'
      in if new_height = last_height then Some (Suc k, s')
         else scroll_loop pg rand (Suc k) s' new_height)"

declare scroll_loop.simps [code]

definition scroll_to_bottom :: "'s page \<Rightarrow> (nat \<Rightarrow> nat) \<Rightarrow> 's \<Rightarrow> (nat \<times> 's) option" where
  "scroll_to_bottom pg rand s = scroll_loop pg rand 0 s (scroll_height pg s)"

text \<open>The page state at the \<open>k\<close>-th poll of the height, and the height it reports.\<close>

fun poll_state :: "'s page \<Rightarrow> (nat \<Rightarrow> nat) \<Rightarrow> 's \<Rightarrow> nat \<Rightarrow> 's" where
  "poll_state pg rand s 0 = s"
| "poll_state pg rand s (Suc k) =
     wait pg (scroll_by pg (randint rand k 300 800) (poll_state pg rand s k))"

definition poll :: "'s page \<Rightarrow> (nat \<Rightarrow> nat) \<Rightarrow> 's \<Rightarrow> nat \<Rightarrow> int" where
  "poll pg rand s k = scroll_height pg (poll_state pg rand s k)"

text \<open>
  What a result \<open>r\<close> of the loop entered at poll \<open>k\<close> says: the loop left after the first
  poll from \<open>k\<close> on that repeated the height of the poll before it.
\<close>

definition stops_at ::
  "'s page \<Rightarrow> (nat \<Rightarrow> nat) \<Rightarrow> nat \<Rightarrow> 's \<Rightarrow> int \<Rightarrow> nat \<times> 's \<Rightarrow> bool" where
  "stops_at pg rand k s lh r \<longleftrightarrow>
     (\<forall>s0. s = poll_state pg rand s0 k \<and> lh = poll pg rand s0 k \<longrightarrow>
        (\<exists>n. r = (Suc n, poll_state pg rand s0 (Suc n)) \<and> k \<le> n
           \<and> poll pg rand s0 (Suc n) = poll pg rand s0 n
           \<and> (\<forall>j. k \<le> j \<and> j < n \<longrightarrow> poll pg rand s0 (Suc j) \<noteq> poll pg rand s0 j)))"


text \<open>
  Two pages whose state is the number of content blocks loaded, one more after each
  wait: a page with three lazy blocks, and a feed that never ends. A random source.
\<close>

definition lazy_page :: "nat page" where
  "lazy_page = \<lparr> scroll_height = (\<lambda>s. 1000 * int (min s 3)), scroll_by = (\<lambda>n s. s), wait = Suc \<rparr>"

definition endless_page :: "nat page" where
  "endless_page = \<lparr> scroll_height = (\<lambda>s. 1000 * int s), scroll_by = (\<lambda>n s. s), wait = Suc \<rparr>"

definition sample_rand :: "nat \<Rightarrow> nat" where
  "sample_rand k = 7919 * k + 104729"

section \<open>Properties of the field extractor\<close>

lemma number_search_cong:
  assumes "\<And>c. c \<in> set s \<Longrightarrow> cls c = is_digit c"
  shows "number_search cls s = number_search is_digit s"
proof -
  have d: "dropWhile (\<lambda>c. \<not> cls c) s = dropWhile (\<lambda>c. \<not> is_digit c) s"
    using assms by (intro dropWhile_cong) auto
  define r where "r = dropWhile (\<lambda>c. \<not> is_digit c) s"
  have sub: "\<And>c. c \<in> set r \<Longrightarrow> cls c = is_digit c"
    using assms set_dropWhileD unfolding r_def by fastforce
  have t: "takeWhile cls r = takeWhile is_digit r"
    using sub by (intro takeWhile_cong) auto
  have t': "dropWhile cls r = dropWhile is_digit r"
    using sub by (intro dropWhile_cong) auto
  show ?thesis
    unfolding number_search_def d r_def [symmetric] by (simp add: t t' Let_def)
qed

lemma dot_not_digit: "\<not> is_digit CHR ''.''"
  by (simp add: is_digit_def)

lemma skip_prefix:
  assumes "list_all (\<lambda>c. \<not> is_digit c) pre" "ip \<noteq> []" "list_all is_digit ip"
  shows "dropWhile (\<lambda>c. \<not> is_digit c) (pre @ ip @ post) = ip @ post"
proof -
  have "dropWhile (\<lambda>c. \<not> is_digit c) (pre @ ip @ post) = dropWhile (\<lambda>c. \<not> is_digit c) (ip @ post)"
    using assms(1) by (intro dropWhile_append2) (simp add: list_all_iff)
  also have "\<dots> = ip @ post"
    using assms(2,3) by (cases ip) auto
  finally show ?thesis .
qed

lemma digit_run:
  assumes "list_all is_digit ip" "case post of [] \<Rightarrow> True | c # _ \<Rightarrow> \<not> is_digit c"
  shows "takeWhile is_digit (ip @ post) = ip" "dropWhile is_digit (ip @ post) = post"
proof -
  have a: "\<And>x. x \<in> set ip \<Longrightarrow> is_digit x" using assms(1) by (simp add: list_all_iff)
  have "takeWhile is_digit post = []" "dropWhile is_digit post = post"
    using assms(2) by (cases post; simp)+
  then show "takeWhile is_digit (ip @ post) = ip" "dropWhile is_digit (ip @ post) = post"
    using a by (simp_all add: takeWhile_append2 dropWhile_append2)
qed

lemma number_search_token:
  assumes "first_number_token s ip fp"
  shows "\<exists>tok. number_search is_digit s = Some tok \<and> py_float tok = Some (decimal_value ip fp)"
proof -
  from assms obtain pre post where
    ip: "ip \<noteq> []" "list_all is_digit ip" and fp: "list_all is_digit fp" and
    pre: "list_all (\<lambda>c. \<not> is_digit c) pre" and
    alt: "(s = pre @ ip @ post \<and> fp = [] \<and>
            (case post of [] \<Rightarrow> True | c # _ \<Rightarrow> \<not> is_digit c \<and> c \<noteq> CHR ''.''))
         \<or> (s = pre @ ip @ ''.'' @ fp @ post \<and>
            (case post of [] \<Rightarrow> True | c # _ \<Rightarrow> \<not> is_digit c))"
    unfolding first_number_token_def by blast
  have tw0: "takeWhile is_digit ip = ip" "dropWhile is_digit ip = []"
    using digit_run [OF ip(2), of "[]"] by simp_all
  have pf0: "py_float ip = Some (decimal_value ip [])"
    using ip(1) by (simp add: py_float_def Let_def tw0)
  from alt show ?thesis
  proof
    assume A: "s = pre @ ip @ post \<and> fp = [] \<and>
            (case post of [] \<Rightarrow> True | c # _ \<Rightarrow> \<not> is_digit c \<and> c \<noteq> CHR ''.'')"
    then have nd: "case post of [] \<Rightarrow> True | c # _ \<Rightarrow> \<not> is_digit c"
      by (cases post) simp_all
    have r: "dropWhile (\<lambda>c. \<not> is_digit c) s = ip @ post"
      using A skip_prefix [OF pre ip] by simp
    have "number_search is_digit s = Some ip"
    proof (cases post)
      case Nil
      then show ?thesis using ip(1) by (simp add: number_search_def r Let_def tw0)
    next
      case (Cons c post')
      with A have "c \<noteq> CHR ''.''" by simp
      then show ?thesis
        using ip(1) digit_run [OF ip(2) nd] Cons
        by (simp add: number_search_def r Let_def)
    qed
    with pf0 A show ?thesis by simp
  next
    assume B: "s = pre @ ip @ ''.'' @ fp @ post \<and>
            (case post of [] \<Rightarrow> True | c # _ \<Rightarrow> \<not> is_digit c)"
    have nd: "case CHR ''.'' # fp @ post of [] \<Rightarrow> True | c # _ \<Rightarrow> \<not> is_digit c"
      by (simp add: dot_not_digit)
    have r: "dropWhile (\<lambda>c. \<not> is_digit c) s = ip @ CHR ''.'' # fp @ post"
      using B skip_prefix [OF pre ip, of "CHR ''.'' # fp @ post"] by simp
    have tw: "takeWhile is_digit (ip @ CHR ''.'' # fp @ post) = ip"
      and dw: "dropWhile is_digit (ip @ CHR ''.'' # fp @ post) = CHR ''.'' # fp @ post"
      using digit_run [OF ip(2) nd] by simp_all
    have tf: "takeWhile is_digit (fp @ post) = fp"
      using B digit_run(1) [OF fp, of post] by simp
    have "number_search is_digit s = Some (ip @ CHR ''.'' # fp)"
      using ip(1) by (simp add: number_search_def r Let_def tw dw tf)
    moreover have "py_float (ip @ CHR ''.'' # fp) = Some (decimal_value ip fp)"
    proof -
      have nd': "case CHR ''.'' # fp of [] \<Rightarrow> True | c # _ \<Rightarrow> \<not> is_digit c"
        by (simp add: dot_not_digit)
      have "takeWhile is_digit (ip @ CHR ''.'' # fp) = ip"
        "dropWhile is_digit (ip @ CHR ''.'' # fp) = CHR ''.'' # fp"
        using digit_run [OF ip(2) nd'] by simp_all
      then show ?thesis using ip(1) fp by (simp add: py_float_def Let_def)
    qed
    ultimately show ?thesis by simp
  qed
qed

lemma takeWhile_all: "list_all P (takeWhile P xs)"
  by (induction xs) simp_all

lemma dropWhile_head: "case dropWhile P xs of [] \<Rightarrow> True | c # _ \<Rightarrow> \<not> P c"
  by (induction xs) simp_all

lemma first_number_token_exists:
  assumes "list_ex is_digit s"
  shows "\<exists>ip fp. first_number_token s ip fp"
proof -
  define pre where "pre = takeWhile (\<lambda>c. \<not> is_digit c) s"
  define r where "r = dropWhile (\<lambda>c. \<not> is_digit c) s"
  define ip where "ip = takeWhile is_digit r"
  define rest where "rest = dropWhile is_digit r"
  have s: "s = pre @ ip @ rest" by (simp add: pre_def r_def ip_def rest_def)
  have pre: "list_all (\<lambda>c. \<not> is_digit c) pre"
    unfolding pre_def by (rule takeWhile_all)
  have "r \<noteq> []" using assms unfolding r_def by (simp add: list_ex_iff)
  moreover have "case r of [] \<Rightarrow> True | c # _ \<Rightarrow> \<not> \<not> is_digit c"
    unfolding r_def by (rule dropWhile_head)
  ultimately have ipne: "ip \<noteq> []" unfolding ip_def by (cases r) simp_all
  have ipd: "list_all is_digit ip"
    unfolding ip_def by (rule takeWhile_all)
  have restnd: "case rest of [] \<Rightarrow> True | c # _ \<Rightarrow> \<not> is_digit c"
    unfolding rest_def by (rule dropWhile_head)
  show ?thesis
  proof (cases "\<exists>rest'. rest = CHR ''.'' # rest'")
    case True
    then obtain rest' where rest: "rest = CHR ''.'' # rest'" by blast
    define fp where "fp = takeWhile is_digit rest'"
    define post where "post = dropWhile is_digit rest'"
    have fpd: "list_all is_digit fp"
      unfolding fp_def by (rule takeWhile_all)
    have postnd: "case post of [] \<Rightarrow> True | c # _ \<Rightarrow> \<not> is_digit c"
      unfolding post_def by (rule dropWhile_head)
    have "s = pre @ ip @ ''.'' @ fp @ post"
      unfolding fp_def post_def using s rest by simp
    with pre postnd have "list_all (\<lambda>c. \<not> is_digit c) pre \<and>
        ((s = pre @ ip @ post \<and> fp = [] \<and>
            (case post of [] \<Rightarrow> True | c # _ \<Rightarrow> \<not> is_digit c \<and> c \<noteq> CHR ''.''))
         \<or> (s = pre @ ip @ ''.'' @ fp @ post \<and>
            (case post of [] \<Rightarrow> True | c # _ \<Rightarrow> \<not> is_digit c)))"
      by simp
    then have "\<exists>pre post. list_all (\<lambda>c. \<not> is_digit c) pre \<and>
        ((s = pre @ ip @ post \<and> fp = [] \<and>
            (case post of [] \<Rightarrow> True | c # _ \<Rightarrow> \<not> is_digit c \<and> c \<noteq> CHR ''.''))
         \<or> (s = pre @ ip @ ''.'' @ fp @ post \<and>
            (case post of [] \<Rightarrow> True | c # _ \<Rightarrow> \<not> is_digit c)))"
      by (intro exI)
    with ipne ipd fpd have "first_number_token s ip fp"
      unfolding first_number_token_def by (intro conjI)
    then show ?thesis by blast
  next
    case False
    with restnd have "case rest of [] \<Rightarrow> True | c # _ \<Rightarrow> \<not> is_digit c \<and> c \<noteq> CHR ''.''"
      by (cases rest) simp_all
    with pre s have "list_all (\<lambda>c. \<not> is_digit c) pre \<and>
        ((s = pre @ ip @ rest \<and> [] = ([]::string) \<and>
            (case rest of [] \<Rightarrow> True | c # _ \<Rightarrow> \<not> is_digit c \<and> c \<noteq> CHR ''.''))
         \<or> (s = pre @ ip @ ''.'' @ [] @ rest \<and>
            (case rest of [] \<Rightarrow> True | c # _ \<Rightarrow> \<not> is_digit c)))"
      by simp
    then have "\<exists>pre post. list_all (\<lambda>c. \<not> is_digit c) pre \<and>
        ((s = pre @ ip @ post \<and> [] = ([]::string) \<and>
            (case post of [] \<Rightarrow> True | c # _ \<Rightarrow> \<not> is_digit c \<and> c \<noteq> CHR ''.''))
         \<or> (s = pre @ ip @ ''.'' @ [] @ post \<and>
            (case post of [] \<Rightarrow> True | c # _ \<Rightarrow> \<not> is_digit c)))"
      by (intro exI)
    with ipne ipd have "first_number_token s ip []"
      unfolding first_number_token_def by (intro conjI) simp_all
    then show ?thesis by blast
  qed
qed

lemma number_search_None: "number_search is_digit s = None \<longleftrightarrow> \<not> list_ex is_digit s"
proof -
  define r where "r = dropWhile (\<lambda>c. \<not> is_digit c) s"
  define rest where "rest = dropWhile is_digit r"
  have "number_search is_digit s =
      (if r = [] then None
       else case rest of
              [] \<Rightarrow> Some (takeWhile is_digit r)
            | c # rest' \<Rightarrow>
                if c = CHR ''.'' then Some (takeWhile is_digit r @ [c] @ takeWhile is_digit rest')
                else Some (takeWhile is_digit r))"
    by (simp only: number_search_def Let_def r_def rest_def)
  then have "number_search is_digit s = None \<longleftrightarrow> r = []"
    by (cases rest) simp_all
  then show ?thesis
    unfolding r_def by (simp add: list_ex_iff)
qed

lemma remove_commas_digits: "list_ex is_digit (remove_commas t) = list_ex is_digit t"
  by (auto simp: remove_commas_def list_ex_iff is_digit_def)

lemma price_search:
  "number_search (\<lambda>c. is_digit c \<or> c = CHR '','') (remove_commas t) = number_search is_digit (remove_commas t)"
  by (rule number_search_cong) (auto simp: remove_commas_def)
lemma extract_price_token:
  assumes "first_number_token (remove_commas t) ip fp"
  shows "extract_price t = Some (decimal_value ip fp)"
proof -
  from number_search_token [OF assms] obtain tok where
    tok: "number_search is_digit (remove_commas t) = Some tok"
      "py_float tok = Some (decimal_value ip fp)" by blast
  from assms first_number_token_def have "ip \<noteq> []" "list_all is_digit ip" by blast+
  have "list_ex is_digit t"
  proof (rule ccontr)
    assume "\<not> list_ex is_digit t"
    then have "number_search is_digit (remove_commas t) = None"
      by (simp add: number_search_None remove_commas_digits)
    with tok show False by simp
  qed
  then have "t \<noteq> []" "t \<noteq> ''N/A''"
    by (auto simp: is_digit_def)
  then show ?thesis
    by (simp add: extract_price_def price_search tok)
qed

lemma extract_price_None:
  "extract_price t = None \<longleftrightarrow> \<not> list_ex is_digit t \<or> t = ''N/A'' \<or> t = []"
proof (cases "list_ex is_digit t")
  case True
  then have "list_ex is_digit (remove_commas t)" by (simp add: remove_commas_digits)
  from first_number_token_exists [OF this] obtain ip fp where
    "first_number_token (remove_commas t) ip fp" by blast
  from extract_price_token [OF this] have "extract_price t \<noteq> None" by simp
  moreover from True have "t \<noteq> []" "t \<noteq> ''N/A''" by (auto simp: is_digit_def)
  ultimately show ?thesis using True by simp
next
  case False
  then have "number_search is_digit (remove_commas t) = None"
    by (simp add: number_search_None remove_commas_digits)
  then show ?thesis using False by (simp add: extract_price_def price_search)
qed

lemmas eval_defs = number_search_def remove_commas_def py_float_def is_digit_def
  decimal_value_def digits_val_def digit_val_def word_ratings_def lower_def is_upper_def
  match_only_left_def

text \<open>
  Claim C4. \<open>extract_price\<close> removes the commas, takes the first decimal-number token and
  returns its value; it returns \<open>None\<close> exactly when the text has no digit, is \<open>N/A\<close> or is
  empty. So \<open>$1,234.56\<close> gives 1234.56, and \<open>N/A\<close> and the empty string give \<open>None\<close>.
\<close>

theorem extract_price_spec:
  "(extract_price t = None \<longleftrightarrow> \<not> list_ex is_digit t \<or> t = ''N/A'' \<or> t = [])
   \<and> (first_number_token (remove_commas t) ip fp \<longrightarrow>
        extract_price t = Some (decimal_value ip fp))
   \<and> (list_ex is_digit t \<longrightarrow> (\<exists>ip fp. first_number_token (remove_commas t) ip fp))
   \<and> extract_price ''$1,234.56'' = Some 1234.56
   \<and> extract_price ''N/A'' = None
   \<and> extract_price [] = None"
proof (intro conjI impI)
  show "extract_price t = None \<longleftrightarrow> \<not> list_ex is_digit t \<or> t = ''N/A'' \<or> t = []"
    by (rule extract_price_None)
  show "extract_price t = Some (decimal_value ip fp)"
    if "first_number_token (remove_commas t) ip fp"
    using that by (rule extract_price_token)
  show "\<exists>ip fp. first_number_token (remove_commas t) ip fp" if "list_ex is_digit t"
    using that first_number_token_exists [of "remove_commas t"]
    by (simp add: remove_commas_digits)
  show "extract_price ''$1,234.56'' = Some 1234.56"
    by (simp add: extract_price_def eval_defs)
  show "extract_price ''N/A'' = None" by (simp add: extract_price_def)
  show "extract_price [] = None" by (simp add: extract_price_def)
qed

text \<open>The theorem at the text \<open>USD 1,999.5 each\<close>.\<close>

theorem extract_price_spec_witness:
  "list_ex is_digit ''USD 1,999.5 each''
   \<and> first_number_token (remove_commas ''USD 1,999.5 each'') ''1999'' ''5''
   \<and> extract_price ''USD 1,999.5 each'' = Some 1999.5"
proof -
  have d: "list_ex is_digit ''USD 1,999.5 each''" by (simp add: is_digit_def)
  have "remove_commas ''USD 1,999.5 each'' = ''USD '' @ ''1999'' @ ''.'' @ ''5'' @ '' each''"
    by (simp add: remove_commas_def)
  then have "\<exists>pre post. list_all (\<lambda>c. \<not> is_digit c) pre \<and>
        ((remove_commas ''USD 1,999.5 each'' = pre @ ''1999'' @ post \<and> ''5'' = [] \<and>
            (case post of [] \<Rightarrow> True | c # _ \<Rightarrow> \<not> is_digit c \<and> c \<noteq> CHR ''.''))
         \<or> (remove_commas ''USD 1,999.5 each'' = pre @ ''1999'' @ ''.'' @ ''5'' @ post \<and>
            (case post of [] \<Rightarrow> True | c # _ \<Rightarrow> \<not> is_digit c)))"
    by (intro exI [of _ "''USD ''"] exI [of _ "'' each''"]) (simp add: is_digit_def)
  then have tk: "first_number_token (remove_commas ''USD 1,999.5 each'') ''1999'' ''5''"
    unfolding first_number_token_def by (simp add: is_digit_def)
  have "decimal_value ''1999'' ''5'' = 1999.5"
    by (simp add: decimal_value_def digits_val_def digit_val_def)
  with d tk extract_price_spec [of "''USD 1,999.5 each''" "''1999''" "''5''"]
  show ?thesis by simp
qed

lemma starts_with_iff: "starts_with s p \<longleftrightarrow> (\<exists>post. s = p @ post)"
  by (induction s p rule: starts_with.induct) auto

lemma contains_occurs: "contains s w \<longleftrightarrow> occurs w s"
proof (induction s)
  case Nil
  show ?case by (auto simp: occurs_def)
next
  case (Cons c cs)
  have "occurs w (c # cs) \<longleftrightarrow> (\<exists>post. c # cs = w @ post) \<or> occurs w cs"
  proof
    assume "occurs w (c # cs)"
    then obtain pre post where eq: "c # cs = pre @ w @ post" unfolding occurs_def by blast
    show "(\<exists>post. c # cs = w @ post) \<or> occurs w cs"
    proof (cases pre)
      case Nil
      with eq show ?thesis by auto
    next
      case (Cons a pre')
      with eq have "cs = pre' @ w @ post" by simp
      then show ?thesis unfolding occurs_def by blast
    qed
  next
    assume "(\<exists>post. c # cs = w @ post) \<or> occurs w cs"
    then show "occurs w (c # cs)"
    proof
      assume "\<exists>post. c # cs = w @ post"
      then obtain post where "c # cs = [] @ w @ post" by auto
      then show ?thesis unfolding occurs_def by blast
    next
      assume "occurs w cs"
      then obtain pre post where "cs = pre @ w @ post" unfolding occurs_def by blast
      then have "c # cs = (c # pre) @ w @ post" by simp
      then show ?thesis unfolding occurs_def by blast
    qed
  qed
  with Cons show ?case by (simp add: starts_with_iff)
qed

lemma word_loop_eq:
  "word_rating_loop t word_ratings =
     (if occurs ''one'' (lower t) then Some 1
      else if occurs ''two'' (lower t) then Some 2
      else if occurs ''three'' (lower t) then Some 3
      else if occurs ''four'' (lower t) then Some 4
      else if occurs ''five'' (lower t) then Some 5
      else None)"
  by (simp add: word_ratings_def contains_occurs)

lemma word_loop_sentinel:
  "word_rating_loop [] word_ratings = None" "word_rating_loop ''N/A'' word_ratings = None"
  by (simp_all add: word_ratings_def lower_def is_upper_def)

lemma extract_rating_token:
  assumes "first_number_token t ip fp"
  shows "extract_rating t = Some (min (decimal_value ip fp) 5)"
proof -
  from number_search_token [OF assms] obtain tok where
    tok: "number_search is_digit t = Some tok"
      "py_float tok = Some (decimal_value ip fp)" by blast
  have "list_ex is_digit t"
  proof (rule ccontr)
    assume "\<not> list_ex is_digit t"
    then have "number_search is_digit t = None" by (simp add: number_search_None)
    with tok show False by simp
  qed
  then have "t \<noteq> []" "t \<noteq> ''N/A''"
    by (auto simp: is_digit_def)
  then show ?thesis
    by (simp add: extract_rating_def tok)
qed

lemma extract_rating_words:
  assumes "\<not> list_ex is_digit t"
  shows "extract_rating t = word_rating_loop t word_ratings"
proof -
  from assms have "number_search is_digit t = None" by (simp add: number_search_None)
  then show ?thesis
    by (auto simp: extract_rating_def word_loop_sentinel)
qed

lemma word_loop_le: "word_rating_loop t word_ratings = Some r \<Longrightarrow> 1 \<le> r \<and> r \<le> 5"
  by (auto simp: word_loop_eq split: if_splits)

lemma extract_rating_le:
  assumes "extract_rating t = Some r"
  shows "r \<le> 5"
proof (cases "list_ex is_digit t")
  case True
  from first_number_token_exists [OF this] obtain ip fp where "first_number_token t ip fp"
    by blast
  from extract_rating_token [OF this] assms show ?thesis by auto
next
  case False
  with assms have "word_rating_loop t word_ratings = Some r"
    by (simp add: extract_rating_words)
  then show ?thesis using word_loop_le by blast
qed

lemma extract_rating_None:
  "extract_rating t = None \<longleftrightarrow>
     \<not> list_ex is_digit t \<and> \<not> list_ex (\<lambda>w. occurs w (lower t)) (map fst word_ratings)"
proof (cases "list_ex is_digit t")
  case True
  from first_number_token_exists [OF this] obtain ip fp where "first_number_token t ip fp"
    by blast
  from extract_rating_token [OF this] True show ?thesis by simp
next
  case False
  then show ?thesis
    by (simp add: extract_rating_words word_loop_eq) (simp add: word_ratings_def)
qed

text \<open>
  Claim C3. \<open>extract_rating\<close> takes the first decimal-number token when the text has a
  digit and returns its value capped at 5; otherwise it looks for the words \<open>one\<close> to
  \<open>five\<close> as substrings of the lower-cased text; it returns \<open>None\<close> exactly when the text
  has neither, and every rating it returns is at most 5.
\<close>

theorem extract_rating_spec:
  "(first_number_token t ip fp \<longrightarrow> extract_rating t = Some (min (decimal_value ip fp) 5))
   \<and> (list_ex is_digit t \<longrightarrow> (\<exists>ip fp. first_number_token t ip fp))
   \<and> (\<not> list_ex is_digit t \<longrightarrow>
        extract_rating t =
          (if occurs ''one'' (lower t) then Some 1
           else if occurs ''two'' (lower t) then Some 2
           else if occurs ''three'' (lower t) then Some 3
           else if occurs ''four'' (lower t) then Some 4
           else if occurs ''five'' (lower t) then Some 5
           else None))
   \<and> (extract_rating t = Some r \<longrightarrow> r \<le> 5)
   \<and> (extract_rating t = None \<longleftrightarrow>
        \<not> list_ex is_digit t \<and>
        \<not> list_ex (\<lambda>w. occurs w (lower t)) (map fst word_ratings))
   \<and> extract_rating ''4.5 out of 5'' = Some 4.5
   \<and> extract_rating ''Three'' = Some 3.0
   \<and> extract_rating ''TWO stars'' = Some 2.0
   \<and> extract_rating [] = None
   \<and> extract_rating ''9'' = Some 5.0"
proof (intro conjI impI)
  show "extract_rating t = Some (min (decimal_value ip fp) 5)" if "first_number_token t ip fp"
    using that by (rule extract_rating_token)
  show "\<exists>ip fp. first_number_token t ip fp" if "list_ex is_digit t"
    using that by (rule first_number_token_exists)
  show "extract_rating t =
          (if occurs ''one'' (lower t) then Some 1
           else if occurs ''two'' (lower t) then Some 2
           else if occurs ''three'' (lower t) then Some 3
           else if occurs ''four'' (lower t) then Some 4
           else if occurs ''five'' (lower t) then Some 5
           else None)" if "\<not> list_ex is_digit t"
    using that by (simp add: extract_rating_words word_loop_eq)
  show "r \<le> 5" if "extract_rating t = Some r"
    using that by (rule extract_rating_le)
  show "extract_rating t = None \<longleftrightarrow>
        \<not> list_ex is_digit t \<and>
        \<not> list_ex (\<lambda>w. occurs w (lower t)) (map fst word_ratings)"
    by (rule extract_rating_None)
  show "extract_rating ''4.5 out of 5'' = Some 4.5"
    by (simp add: extract_rating_def eval_defs)
  show "extract_rating ''Three'' = Some 3.0"
    by (simp add: extract_rating_def eval_defs)
  show "extract_rating ''TWO stars'' = Some 2.0"
    by (simp add: extract_rating_def eval_defs)
  show "extract_rating [] = None"
    by (simp add: extract_rating_def)
  show "extract_rating ''9'' = Some 5.0"
    by (simp add: extract_rating_def eval_defs)
qed

text \<open>The theorem at the texts \<open>Rated 7.25!\<close> and \<open>Four stars\<close>.\<close>

theorem extract_rating_spec_witness:
  "first_number_token ''Rated 7.25!'' ''7'' ''25'' \<and> list_ex is_digit ''Rated 7.25!''
   \<and> extract_rating ''Rated 7.25!'' = Some 5
   \<and> \<not> list_ex is_digit ''Four stars'' \<and> extract_rating ''Four stars'' = Some 4"
proof -
  have "''Rated 7.25!'' = ''Rated '' @ ''7'' @ ''.'' @ ''25'' @ ''!''" by simp
  then have "\<exists>pre post. list_all (\<lambda>c. \<not> is_digit c) pre \<and>
        ((''Rated 7.25!'' = pre @ ''7'' @ post \<and> ''25'' = [] \<and>
            (case post of [] \<Rightarrow> True | c # _ \<Rightarrow> \<not> is_digit c \<and> c \<noteq> CHR ''.''))
         \<or> (''Rated 7.25!'' = pre @ ''7'' @ ''.'' @ ''25'' @ post \<and>
            (case post of [] \<Rightarrow> True | c # _ \<Rightarrow> \<not> is_digit c)))"
    by (intro exI [of _ "''Rated ''"] exI [of _ "''!''"]) (simp add: is_digit_def)
  then have tk: "first_number_token ''Rated 7.25!'' ''7'' ''25''"
    unfolding first_number_token_def by (simp add: is_digit_def)
  have d: "list_ex is_digit ''Rated 7.25!''" "\<not> list_ex is_digit ''Four stars''"
    by (simp_all add: is_digit_def)
  have v: "min (decimal_value ''7'' ''25'') 5 = 5"
    by (simp add: decimal_value_def digits_val_def digit_val_def)
  have "contains (lower ''Four stars'') ''four''" "\<not> contains (lower ''Four stars'') ''one''"
    "\<not> contains (lower ''Four stars'') ''two''" "\<not> contains (lower ''Four stars'') ''three''"
    by (simp_all add: lower_def is_upper_def)
  then have o: "occurs ''four'' (lower ''Four stars'')" "\<not> occurs ''one'' (lower ''Four stars'')"
    "\<not> occurs ''two'' (lower ''Four stars'')" "\<not> occurs ''three'' (lower ''Four stars'')"
    by (simp_all add: contains_occurs)
  from tk d v o extract_rating_spec [of "''Rated 7.25!''" "''7''" "''25''"]
    extract_rating_spec [of "''Four stars''"]
  show ?thesis by simp
qed

section \<open>Properties of the stock information\<close>

lemma space_not_digit: "\<not> is_digit CHR '' ''"
  by (simp add: is_digit_def)

lemma match_only_left_complete:
  assumes "ds \<noteq> []" "list_all is_digit ds"
  shows "match_only_left (''only '' @ ds @ '' left'' @ post) = Some (''only '' @ ds @ '' left'')"
proof -
  have nd: "case '' left'' @ post of [] \<Rightarrow> True | c # _ \<Rightarrow> \<not> is_digit c"
    by (simp add: space_not_digit)
  have "takeWhile is_digit (ds @ '' left'' @ post) = ds"
    "dropWhile is_digit (ds @ '' left'' @ post) = '' left'' @ post"
    using digit_run [OF assms(2) nd] by simp_all
  then show ?thesis
    using assms(1) by (simp add: match_only_left_def Let_def)
qed

lemma match_only_left_sound:
  assumes "match_only_left s = Some m"
  shows "\<exists>ds post. ds \<noteq> [] \<and> list_all is_digit ds \<and> m = ''only '' @ ds @ '' left''
           \<and> s = m @ post"
proof -
  define r where "r = drop 5 s"
  define ds where "ds = takeWhile is_digit r"
  define r' where "r' = dropWhile is_digit r"
  from assms have sw: "starts_with s ''only ''"
    by (simp add: match_only_left_def split: if_splits)
  then obtain rest where s: "s = ''only '' @ rest" by (auto simp: starts_with_iff)
  then have r: "r = rest" by (simp add: r_def)
  from assms sw have c: "ds \<noteq> [] \<and> starts_with r' '' left''" and m: "m = ''only '' @ ds @ '' left''"
    by (simp_all add: match_only_left_def Let_def r_def ds_def r'_def split: if_splits)
  from c obtain post where r': "r' = '' left'' @ post" by (auto simp: starts_with_iff)
  have "r = ds @ r'" by (simp add: ds_def r'_def)
  with s r r' m have "s = m @ post" by simp
  moreover have "list_all is_digit ds" unfolding ds_def by (rule takeWhile_all)
  ultimately show ?thesis using c m by blast
qed

lemma search_only_left_sound:
  "search_only_left s = Some m \<Longrightarrow>
     \<exists>ds. ds \<noteq> [] \<and> list_all is_digit ds \<and> m = ''only '' @ ds @ '' left'' \<and> occurs m s"
proof (induction s)
  case Nil
  then show ?case by simp
next
  case (Cons c cs)
  show ?case
  proof (cases "match_only_left (c # cs)")
    case None
    with Cons.prems have "search_only_left cs = Some m" by simp
    from Cons.IH [OF this] obtain ds where
      ds: "ds \<noteq> []" "list_all is_digit ds" "m = ''only '' @ ds @ '' left''" and "occurs m cs"
      by blast
    then obtain pre post where "cs = pre @ m @ post" unfolding occurs_def by blast
    then have "c # cs = (c # pre) @ m @ post" by simp
    then have "occurs m (c # cs)" unfolding occurs_def by blast
    with ds show ?thesis by blast
  next
    case (Some m')
    with Cons.prems have "m' = m" by simp
    with Some match_only_left_sound obtain ds post where
      ds: "ds \<noteq> []" "list_all is_digit ds" "m = ''only '' @ ds @ '' left''"
      and "c # cs = m @ post" by blast
    then have "c # cs = [] @ m @ post" by simp
    then have "occurs m (c # cs)" unfolding occurs_def by blast
    with ds show ?thesis by blast
  qed
qed

lemma search_only_left_complete:
  assumes "ds \<noteq> []" "list_all is_digit ds"
  shows "search_only_left (pre @ ''only '' @ ds @ '' left'' @ post) \<noteq> None"
proof (induction pre)
  case Nil
  have "search_only_left (''only '' @ ds @ '' left'' @ post)
          = Some (''only '' @ ds @ '' left'')"
    using match_only_left_complete [OF assms, of post] by simp
  then show ?case by simp
next
  case (Cons c pre)
  then show ?case by (simp split: option.splits)
qed

lemma search_only_left_None:
  "search_only_left s = None \<longleftrightarrow>
     \<not> (\<exists>ds. ds \<noteq> [] \<and> list_all is_digit ds \<and> occurs (''only '' @ ds @ '' left'') s)"
proof
  assume n: "search_only_left s = None"
  show "\<not> (\<exists>ds. ds \<noteq> [] \<and> list_all is_digit ds \<and> occurs (''only '' @ ds @ '' left'') s)"
  proof
    assume "\<exists>ds. ds \<noteq> [] \<and> list_all is_digit ds \<and> occurs (''only '' @ ds @ '' left'') s"
    then obtain ds pre post where ds: "ds \<noteq> []" "list_all is_digit ds"
      and "s = pre @ (''only '' @ ds @ '' left'') @ post" unfolding occurs_def by blast
    then have "s = pre @ ''only '' @ ds @ '' left'' @ post" by simp
    with search_only_left_complete [OF ds, of pre post] n show False by simp
  qed
next
  assume "\<not> (\<exists>ds. ds \<noteq> [] \<and> list_all is_digit ds \<and> occurs (''only '' @ ds @ '' left'') s)"
  then show "search_only_left s = None"
    using search_only_left_sound [of s] by (cases "search_only_left s") auto
qed

text \<open>
  For a text that is neither empty nor \<open>N/A\<close>: \<open>in_stock\<close> is true exactly when one of the
  three phrases occurs in the lower-cased text, \<open>scarcity_signal\<close> is the match of
  \<open>only <digits> left\<close> in the lower-cased text or null, and \<open>raw_text\<close> is the text.
\<close>

lemma extract_stock_info_regular:
  assumes "t \<noteq> []" "t \<noteq> ''N/A''"
  shows "map_of (extract_stock_info t) ''in_stock'' =
           Some (JBool (occurs ''in stock'' (lower t) \<or> occurs ''available'' (lower t)
                        \<or> occurs ''ready to ship'' (lower t)))"
    and "map_of (extract_stock_info t) ''scarcity_signal'' =
           Some (case search_only_left (lower t) of Some m \<Rightarrow> JStr m | None \<Rightarrow> JNull)"
    and "map_of (extract_stock_info t) ''raw_text'' = Some (JStr t)"
  using assms by (simp_all add: extract_stock_info_def Let_def contains_occurs)

text \<open>
  Claim C2 says that the result always carries the raw text, also for the empty text and
  for \<open>N/A\<close>. For these two inputs the function returns early with a dict that has no
  \<open>raw_text\<close> key.
\<close>

theorem extract_stock_info_sentinel:
  "extract_stock_info ''N/A'' = [(''in_stock'', JNull), (''scarcity_signal'', JNull)]
   \<and> extract_stock_info [] = [(''in_stock'', JNull), (''scarcity_signal'', JNull)]
   \<and> map_of (extract_stock_info ''N/A'') ''raw_text'' = None
   \<and> map_of (extract_stock_info []) ''raw_text'' = None
   \<and> map_of (extract_stock_info ''Only 3 left in stock'') ''raw_text''
       = Some (JStr ''Only 3 left in stock'')
   \<and> map_of (extract_stock_info ''Only 3 left in stock'') ''in_stock'' = Some (JBool True)
   \<and> map_of (extract_stock_info ''Only 3 left in stock'') ''scarcity_signal''
       = Some (JStr ''only 3 left'')"
  by (simp add: extract_stock_info_def eval_defs)

section \<open>Properties of the enrichment engine\<close>

lemma exp_up_log:
  "1 \<le> a \<Longrightarrow> e \<le> 1024 \<Longrightarrow> exp_up a e = min 1024 (e + \<lfloor>log 2 a\<rfloor>)"
proof (induction a e rule: exp_up.induct)
  case (1 a e)
  show ?case
  proof (cases "2 \<le> a \<and> e < 1024")
    case True
    then have "exp_up a e = exp_up (a / 2) (e + 1)" by (subst exp_up.simps) simp
    also have "\<dots> = min 1024 (e + 1 + \<lfloor>log 2 (a / 2)\<rfloor>)"
      using True by (intro "1.IH") simp_all
    also have "log 2 (a / 2) = log 2 a - 1" using True by (simp add: log_divide)
    also have "\<lfloor>log 2 a - 1\<rfloor> = \<lfloor>log 2 a\<rfloor> - 1" by simp
    finally show ?thesis by simp
  next
    case False
    then have r: "exp_up a e = e" by (subst exp_up.simps) (simp only: if_False)
    show ?thesis
    proof (cases "2 \<le> a")
      case True
      with False have "e = 1024" using "1.prems" by simp
      moreover have "1 \<le> log 2 a" using True by (simp add: le_log_iff)
      then have "1 \<le> \<lfloor>log 2 a\<rfloor>" by (simp add: le_floor_iff)
      ultimately show ?thesis using r by simp
    next
      case False
      then have "0 \<le> log 2 a" "log 2 a < 1" using "1.prems" by (simp_all add: log_less_iff)
      then have "\<lfloor>log 2 a\<rfloor> = 0" by (simp add: floor_eq_iff)
      then show ?thesis using r "1.prems" by simp
    qed
  qed
qed

lemma exp_down_log:
  "0 < a \<Longrightarrow> a < 2 \<Longrightarrow> - 1022 \<le> e \<Longrightarrow> exp_down a e = max (- 1022) (e + \<lfloor>log 2 a\<rfloor>)"
proof (induction a e rule: exp_down.induct)
  case (1 a e)
  show ?case
  proof (cases "a < 1 \<and> - 1022 < e")
    case True
    then have "exp_down a e = exp_down (a * 2) (e - 1)" by (subst exp_down.simps) simp
    also have "\<dots> = max (- 1022) (e - 1 + \<lfloor>log 2 (a * 2)\<rfloor>)"
      using True "1.prems" by (intro "1.IH") simp_all
    also have "log 2 (a * 2) = log 2 a + 1" using "1.prems" by (simp add: log_mult)
    also have "\<lfloor>log 2 a + 1\<rfloor> = \<lfloor>log 2 a\<rfloor> + 1" by simp
    finally show ?thesis by simp
  next
    case False
    then have r: "exp_down a e = e" by (subst exp_down.simps) (simp only: if_False)
    show ?thesis
    proof (cases "a < 1")
      case True
      with False have "e = - 1022" using "1.prems" by simp
      moreover have "log 2 a < 0" using True "1.prems" by simp
      then have "\<lfloor>log 2 a\<rfloor> < 0" by (simp add: floor_less_iff)
      ultimately show ?thesis using r by simp
    next
      case False
      then have "0 \<le> log 2 a" "log 2 a < 1" using "1.prems" by (simp_all add: log_less_iff)
      then have "\<lfloor>log 2 a\<rfloor> = 0" by (simp add: floor_eq_iff)
      then show ?thesis using r "1.prems" by simp
    qed
  qed
qed

lemma exponent_log:
  assumes "0 < a"
  shows "exponent a = min 1024 (max (- 1022) \<lfloor>log 2 a\<rfloor>)"
proof (cases "1 \<le> a")
  case True
  define l where "l = \<lfloor>log 2 a\<rfloor>"
  from True have "0 \<le> log 2 a" by simp
  then have "0 \<le> l" unfolding l_def by simp
  then have "min 1024 (0 + l) = min 1024 (max (- 1022) l)" by simp
  moreover have "exponent a = min 1024 (0 + l)"
    unfolding l_def using True by (simp add: exponent_def exp_up_log)
  ultimately show ?thesis unfolding l_def by simp
next
  case False
  define l where "l = \<lfloor>log 2 a\<rfloor>"
  from False have "log 2 a < 0" using assms by simp
  then have "l < 0" unfolding l_def by (simp add: floor_less_iff)
  then have "max (- 1022) (0 + l) = min 1024 (max (- 1022) l)" by simp
  moreover have "exponent a = max (- 1022) (0 + l)"
    unfolding l_def using False assms by (simp add: exponent_def exp_down_log)
  ultimately show ?thesis unfolding l_def by simp
qed

lemma pow2_powr: "pow2 k = 2 powr real_of_int k"
proof (cases "0 \<le> k")
  case True
  then have "real_of_int k = real (nat k)" by simp
  then have "2 powr real_of_int k = 2 powr real (nat k)" by (rule arg_cong)
  also have "\<dots> = 2 ^ nat k" by (simp add: powr_realpow)
  finally show ?thesis using True by (simp add: pow2_def)
next
  case False
  then have "real_of_int k = - real (nat (- k))" by simp
  then have "2 powr real_of_int k = 2 powr (- real (nat (- k)))" by (rule arg_cong)
  also have "\<dots> = 1 / 2 powr real (nat (- k))" by (simp add: powr_minus divide_inverse)
  also have "\<dots> = 1 / 2 ^ nat (- k)" by (simp add: powr_realpow)
  finally show ?thesis using False by (simp add: pow2_def)
qed

lemma round64_binade:
  assumes "0 < x" "2 powr real_of_int e \<le> x" "x < 2 powr real_of_int (e + 1)"
    "- 1022 \<le> e" "e \<le> 1023"
  shows "round64 x =
           (if overflow_threshold
                 \<le> of_int (round_half_even (x / 2 powr real_of_int (e - 52)))
                     * 2 powr real_of_int (e - 52)
            then PInf
            else Finite (of_int (round_half_even (x / 2 powr real_of_int (e - 52)))
                     * 2 powr real_of_int (e - 52)))"
proof -
  have "\<lfloor>log 2 x\<rfloor> = e"
    using assms(1-3) by (subst floor_log_eq_powr_iff) simp_all
  then have "exponent x = min 1024 (max (- 1022) e)"
    using exponent_log [OF assms(1)] by simp
  then have "exponent x = e" using assms(4,5) by simp
  moreover have "\<bar>x\<bar> = x" "x \<noteq> 0" using assms(1) by simp_all
  ultimately show ?thesis
    using assms(1) unfolding round64_def Let_def by (simp only: if_False if_True pow2_powr)
qed

lemma pow2_nat: "2 powr real_of_int (int n) = (2::real) ^ n"
  by (simp add: powr_realpow)

lemma pow2_neg: "2 powr real_of_int (- int n) = 1 / (2::real) ^ n"
proof -
  have "2 powr real_of_int (- int n) = 2 powr (- real n)" by simp
  also have "\<dots> = 1 / 2 powr real n" by (simp add: powr_minus divide_inverse)
  also have "\<dots> = 1 / (2::real) ^ n" by (simp add: powr_realpow)
  finally show ?thesis .
qed

lemma round_half_even_le: "real_of_int (round_half_even m) \<le> m + 1"
proof -
  have f: "real_of_int \<lfloor>m\<rfloor> \<le> m" by (rule of_int_floor_le)
  have "round_half_even m = \<lfloor>m\<rfloor> \<or> round_half_even m = \<lfloor>m\<rfloor> + 1"
    unfolding round_half_even_def Let_def by simp
  then show ?thesis
  proof
    assume a: "round_half_even m = \<lfloor>m\<rfloor>"
    from f have "real_of_int \<lfloor>m\<rfloor> \<le> m + 1" by linarith
    then show ?thesis unfolding a .
  next
    assume a: "round_half_even m = \<lfloor>m\<rfloor> + 1"
    from f have "real_of_int (\<lfloor>m\<rfloor> + 1) \<le> m + 1" by simp
    then show ?thesis unfolding a .
  qed
qed

lemma no_overflow:
  assumes "x < 2 ^ 64" "0 < k"
  shows "\<not> overflow_threshold \<le> of_int (round_half_even (x * 2 ^ k)) / 2 ^ k"
proof -
  have "of_int (round_half_even (x * 2 ^ k)) / (2::real) ^ k \<le> (x * 2 ^ k + 1) / 2 ^ k"
    using round_half_even_le [of "x * 2 ^ k"] by (simp add: divide_right_mono)
  also have "\<dots> = x + 1 / 2 ^ k" by (simp add: add_divide_distrib)
  also have "\<dots> \<le> x + 1" by (simp add: divide_le_eq)
  also have "\<dots> < 2 ^ 64 + 1" using assms(1) by simp
  also have "\<dots> \<le> (2::real) ^ 64 + 2 ^ 64" by simp
  also have "\<dots> = (2::real) ^ 65" by simp
  also have "\<dots> \<le> (2::real) ^ 1024" by (rule power_increasing) simp_all
  finally show ?thesis unfolding overflow_threshold_def by simp
qed

lemma round64_ge1:
  assumes "2 ^ n \<le> x" "x < 2 * 2 ^ n" "n < 52"
  shows "round64 x = Finite (of_int (round_half_even (x * 2 ^ (52 - n))) / 2 ^ (52 - n))"
proof -
  have "(0::real) < 2 ^ n" by simp
  with assms(1) have pos: "0 < x" by linarith
  have b: "2 powr real_of_int (int n + 1) = (2::real) * 2 ^ n"
    using pow2_nat [of "Suc n"] by (simp add: add.commute)
  have "int n - 52 = - int (52 - n)" using assms(3) by simp
  then have c: "2 powr real_of_int (int n - 52) = 1 / (2::real) ^ (52 - n)"
    by (simp only: pow2_neg)
  have "(2::real) * 2 ^ n = 2 ^ Suc n" by simp
  also have "\<dots> \<le> (2::real) ^ 64" using assms(3) by (intro power_increasing) simp_all
  finally have "x < 2 ^ 64" using assms(2) by simp
  then have no: "\<not> overflow_threshold
       \<le> of_int (round_half_even (x * 2 ^ (52 - n))) / 2 ^ (52 - n)"
    using assms(3) by (intro no_overflow) simp_all
  have "2 powr real_of_int (int n) \<le> x" "x < 2 powr real_of_int (int n + 1)"
    using assms(1,2) by (simp_all only: pow2_nat b)
  moreover have "- 1022 \<le> int n" "int n \<le> 1023" using assms(3) by simp_all
  ultimately show ?thesis
    using round64_binade [OF pos, of "int n"] no unfolding c by simp
qed

lemma round64_lt1:
  assumes "1 / 2 ^ n \<le> x" "x < 2 / 2 ^ n" "0 < n" "n \<le> 1022"
  shows "round64 x = Finite (of_int (round_half_even (x * 2 ^ (n + 52))) / 2 ^ (n + 52))"
proof -
  have "(0::real) < 1 / 2 ^ n" by simp
  with assms(1) have pos: "0 < x" by linarith
  obtain m where n: "n = Suc m" using assms(3) by (cases n) simp_all
  have "- int n + 1 = - int m" using n by simp
  then have "2 powr real_of_int (- int n + 1) = 1 / (2::real) ^ m"
    by (simp only: pow2_neg)
  also have "\<dots> = 2 / (2::real) ^ n" by (simp add: n)
  finally have b: "2 powr real_of_int (- int n + 1) = 2 / (2::real) ^ n" .
  have "- int n - 52 = - int (n + 52)" by simp
  then have c: "2 powr real_of_int (- int n - 52) = 1 / (2::real) ^ (n + 52)"
    by (simp only: pow2_neg)
  have "2 / (2::real) ^ n \<le> 2" by (simp add: divide_le_eq)
  also have "\<dots> \<le> (2::real) ^ 64" by simp
  finally have "x < 2 ^ 64" using assms(2) by simp
  then have no: "\<not> overflow_threshold
       \<le> of_int (round_half_even (x * 2 ^ (n + 52))) / 2 ^ (n + 52)"
    by (intro no_overflow) simp_all
  have "2 powr real_of_int (- int n) \<le> x" "x < 2 powr real_of_int (- int n + 1)"
    using assms(1,2) by (simp_all only: pow2_neg b)
  moreover have "- 1022 \<le> - int n" "- int n \<le> 1023" using assms(4) by simp_all
  ultimately show ?thesis
    using round64_binade [OF pos, of "- int n"] no unfolding c by simp
qed

lemma round_literals:
  "round64 (7 / 10) = Finite float_0_7" "round64 (13 / 10) = Finite float_1_3"
  unfolding float_0_7_def float_1_3_def
  by (subst round64_lt1 [where n = 1], simp_all add: round_half_even_def Let_def,
      subst round64_ge1 [where n = 0], simp_all add: round_half_even_def Let_def)

lemma fallback_priced:
  assumes "price p = Some x"
  shows "fallback_categorization p stats =
           Inr (if flt x (fmul (avg stats) float_0_7) then ''Budget''
                else if flt x (fmul (avg stats) float_1_3) then ''Mid Range''
                else ''High End'')"
  using assms by (simp add: fallback_categorization_def Let_def)

lemma stamp_enriched: "enriched_from p (stamp p c r t)"
  unfolding enriched_from_def stamp_def by blast

lemma apply_fallback_priced:
  assumes "price p \<noteq> None"
  shows "\<exists>p'. apply_fallback e p stats w = Inr (p', w \<lparr> ticks := ticks w + 1 \<rparr>)
               \<and> enriched_from p p'"
proof -
  from assms obtain x where "price p = Some x" by auto
  then show ?thesis
    by (simp add: apply_fallback_def fallback_priced stamp_enriched)
qed

lemma apply_fallback_all_priced:
  assumes "list_all (\<lambda>p. price p \<noteq> None) ps"
  shows "\<exists>ps' w'. apply_fallback_all e ps stats w = Inr (ps', w')
           \<and> list_all2 enriched_from ps ps' \<and> llm_calls w' = llm_calls w"
  using assms
proof (induction ps arbitrary: w)
  case Nil
  then show ?case by simp
next
  case (Cons p ps)
  then have "price p \<noteq> None" and rest: "list_all (\<lambda>p. price p \<noteq> None) ps" by simp_all
  from apply_fallback_priced [OF this(1), of e stats w] obtain p' where
    p': "apply_fallback e p stats w = Inr (p', w \<lparr> ticks := ticks w + 1 \<rparr>)"
      "enriched_from p p'" by blast
  from Cons.IH [OF rest, of "w \<lparr> ticks := ticks w + 1 \<rparr>"] obtain ps' w' where
    ps': "apply_fallback_all e ps stats (w \<lparr> ticks := ticks w + 1 \<rparr>) = Inr (ps', w')"
      "list_all2 enriched_from ps ps'" "llm_calls w' = llm_calls w" by auto
  from p' ps' show ?case by simp
qed

lemma enrich_parsed_result:
  "enrich_parsed e cats stats ps enriched w = Inr (out, w') \<Longrightarrow>
     (\<exists>ps'. out = enriched @ ps' \<and> list_all2 enriched_from ps ps')
     \<and> llm_calls w' = llm_calls w"
proof (induction ps arbitrary: enriched w)
  case Nil
  then show ?case by simp
next
  case (Cons p ps)
  from Cons.prems obtain c r where cr: "categorize_one cats stats p = Some (c, r)"
    by (cases "categorize_one cats stats p") auto
  with Cons.prems have
    "enrich_parsed e cats stats ps (enriched @ [stamp p c r (clock e (ticks w))])
       (w \<lparr> ticks := ticks w + 1 \<rparr>) = Inr (out, w')" by simp
  from Cons.IH [OF this] obtain ps' where
    "out = (enriched @ [stamp p c r (clock e (ticks w))]) @ ps'"
    "list_all2 enriched_from ps ps'" "llm_calls w' = llm_calls w" by auto
  then have "out = enriched @ (stamp p c r (clock e (ticks w)) # ps')"
    "list_all2 enriched_from (p # ps) (stamp p c r (clock e (ticks w)) # ps')"
    by (simp_all add: stamp_enriched)
  with \<open>llm_calls w' = llm_calls w\<close> show ?case by blast
qed

lemma enrich_parsed_failure:
  "enrich_parsed e cats stats ps enriched w = Inl w' \<Longrightarrow> llm_calls w' = llm_calls w"
proof (induction ps arbitrary: enriched w)
  case Nil
  then show ?case by simp
next
  case (Cons p ps)
  show ?case
  proof (cases "categorize_one cats stats p")
    case None
    with Cons.prems show ?thesis by simp
  next
    case (Some cr)
    obtain c r where "cr = (c, r)" by (cases cr)
    with Some Cons.prems have
      "enrich_parsed e cats stats ps (enriched @ [stamp p c r (clock e (ticks w))])
         (w \<lparr> ticks := ticks w + 1 \<rparr>) = Inl w'" by simp
    from Cons.IH [OF this] show ?thesis by simp
  qed
qed

lemma enrich_batch_priced:
  assumes "list_all (\<lambda>p. price p \<noteq> None) ps"
  shows "\<exists>out w'. enrich_batch e ps stats w = Inr (out, w')
           \<and> list_all2 enriched_from ps out
           \<and> llm_calls w' = llm_calls w @ [(stats, map summarize ps)]"
proof -
  define w1 where "w1 = w \<lparr> llm_calls := llm_calls w @ [(stats, map summarize ps)] \<rparr>"
  define attempt where "attempt =
     (case provider e (length (llm_calls w)) (stats, map summarize ps) of
        None \<Rightarrow> Inl w1
      | Some response_json \<Rightarrow>
          (case categorizations_of response_json of
             None \<Rightarrow> Inl w1
           | Some categorizations \<Rightarrow> enrich_parsed e categorizations stats ps [] w1))"
  have eb: "enrich_batch e ps stats w =
      (case attempt of Inr result \<Rightarrow> Inr result | Inl w2 \<Rightarrow> apply_fallback_all e ps stats w2)"
    unfolding enrich_batch_def Let_def attempt_def w1_def by (rule refl)
  have w1: "llm_calls w1 = llm_calls w @ [(stats, map summarize ps)]"
    by (simp add: w1_def)
  show ?thesis
  proof (cases attempt)
    case (Inl w2)
    have "llm_calls w2 = llm_calls w1"
      using Inl enrich_parsed_failure unfolding attempt_def
      by (auto split: option.splits)
    moreover from apply_fallback_all_priced [OF assms, of e stats w2] obtain out w' where
      "apply_fallback_all e ps stats w2 = Inr (out, w')" "list_all2 enriched_from ps out"
      "llm_calls w' = llm_calls w2" by blast
    ultimately show ?thesis using eb Inl w1 by simp
  next
    case (Inr res)
    obtain out w' where res: "res = (out, w')" by (cases res)
    from Inr res obtain cats where "enrich_parsed e cats stats ps [] w1 = Inr (out, w')"
      unfolding attempt_def by (auto split: option.splits)
    from enrich_parsed_result [OF this] have
      "list_all2 enriched_from ps out" "llm_calls w' = llm_calls w1" by auto
    with eb Inr res w1 show ?thesis by simp
  qed
qed

lemma batches_unfold:
  assumes "0 < n"
  shows "batches n xs = (if xs = [] then [] else take n xs # batches n (drop n xs))"
proof (cases xs)
  case Nil
  then show ?thesis by simp
next
  case (Cons x xs')
  from assms have "drop n (x # xs') = drop (n - 1) xs'" by (simp add: drop_Cons')
  with Cons show ?thesis by simp
qed

lemma concat_batches:
  assumes "0 < n"
  shows "concat (batches n xs) = xs"
proof (induction "length xs" arbitrary: xs rule: less_induct)
  case less
  show ?case
  proof (cases "xs = []")
    case True
    then show ?thesis by simp
  next
    case False
    with assms have "length (drop n xs) < length xs" by simp
    from less [OF this] have "concat (batches n (drop n xs)) = drop n xs" .
    with False show ?thesis
      by (subst batches_unfold [OF assms]) simp
  qed
qed

lemma length_batches:
  assumes "0 < n"
  shows "map length (batches n xs) =
           replicate (length xs div n) n @
           (if length xs mod n = 0 then [] else [length xs mod n])"
proof (induction "length xs" arbitrary: xs rule: less_induct)
  case less
  show ?case
  proof (cases "xs = []")
    case True
    then show ?thesis by simp
  next
    case False
    then have b: "batches n xs = take n xs # batches n (drop n xs)"
      by (subst batches_unfold [OF assms]) simp
    from False assms have "length (drop n xs) < length xs" by simp
    from less [OF this] have IH: "map length (batches n (drop n xs)) =
           replicate ((length xs - n) div n) n @
           (if (length xs - n) mod n = 0 then [] else [(length xs - n) mod n])" by simp
    show ?thesis
    proof (cases "n \<le> length xs")
      case True
      then have "length xs div n = Suc ((length xs - n) div n)"
        "length xs mod n = (length xs - n) mod n"
        using assms by (simp_all add: le_div_geq le_mod_geq)
      with True IH b show ?thesis by simp
    next
      case False
      then have "length xs div n = 0" "length xs mod n = length xs" "drop n xs = []"
        "take n xs = xs" by simp_all
      with b \<open>xs \<noteq> []\<close> show ?thesis by simp
    qed
  qed
qed

lemma batch_loop_priced:
  assumes "list_all (\<lambda>p. price p \<noteq> None) valid"
  shows "\<exists>out w'. batch_loop e stats valid i acc w = Inr (acc @ out, w')
           \<and> list_all2 enriched_from (drop i valid) out
           \<and> llm_calls w' = llm_calls w @
                 map (\<lambda>b. (stats, map summarize b)) (batches batch_size (drop i valid))"
  using assms
proof (induction e stats valid i acc w rule: batch_loop.induct)
  case (1 e stats valid i acc w)
  show ?case
  proof (cases "i < length valid")
    case False
    then show ?thesis by (simp add: batch_loop.simps [of e stats valid i])
  next
    case True
    define batch where "batch = take batch_size (drop i valid)"
    have bs: "0 < batch_size" by (simp add: batch_size_def)
    from "1.prems" have "list_all (\<lambda>p. price p \<noteq> None) batch"
      unfolding batch_def list_all_iff
      using in_set_takeD in_set_dropD by fast
    from enrich_batch_priced [OF this, of e stats w] obtain eb w1 where
      eb: "enrich_batch e batch stats w = Inr (eb, w1)" "list_all2 enriched_from batch eb"
        "llm_calls w1 = llm_calls w @ [(stats, map summarize batch)]" by blast
    from "1.IH" [OF True batch_def eb(1) refl "1.prems"] obtain out w' where
      out: "batch_loop e stats valid (i + batch_size) (acc @ eb) w1 = Inr ((acc @ eb) @ out, w')"
        "list_all2 enriched_from (drop (i + batch_size) valid) out"
        "llm_calls w' = llm_calls w1 @
           map (\<lambda>b. (stats, map summarize b)) (batches batch_size (drop (i + batch_size) valid))"
      by blast
    have d: "drop (i + batch_size) valid = drop batch_size (drop i valid)"
      by (simp add: add.commute)
    have "drop i valid = batch @ drop (i + batch_size) valid"
      unfolding batch_def d by (rule append_take_drop_id [symmetric])
    with eb(2) out(2) have l: "list_all2 enriched_from (drop i valid) (eb @ out)"
      by (simp add: list_all2_appendI)
    from True have "drop i valid \<noteq> []" by simp
    then have "batches batch_size (drop i valid) =
        batch # batches batch_size (drop (i + batch_size) valid)"
      unfolding batch_def d by (subst batches_unfold [OF bs]) simp
    with eb(3) out(3) have c: "llm_calls w' = llm_calls w @
        map (\<lambda>b. (stats, map summarize b)) (batches batch_size (drop i valid))" by simp
    have "batch_loop e stats valid i acc w = Inr (acc @ eb @ out, w')"
      using True eb(1) out(1)
      by (simp add: batch_loop.simps [of e stats valid i] batch_def [symmetric])
    with l c show ?thesis by blast
  qed
qed

lemma price_statistics_priced:
  assumes "valid \<noteq> []" "list_all (\<lambda>p. price p \<noteq> None) valid"
  shows "\<exists>stats. price_statistics (List.map_filter price valid) = Inr stats"
proof -
  from assms obtain p ps x where "valid = p # ps" "price p = Some x"
    by (cases valid) auto
  then show ?thesis by (simp add: List.map_filter_simps)
qed

lemma categorize_products_run:
  "\<exists>enriched w' stats.
     categorize_products e products w =
       Inr (enriched @ filter (\<lambda>p. price p = None) products, w')
     \<and> list_all2 enriched_from (filter (\<lambda>p. price p \<noteq> None) products) enriched
     \<and> llm_calls w' = llm_calls w @
         map (\<lambda>b. (stats, map summarize b))
           (batches batch_size (filter (\<lambda>p. price p \<noteq> None) products))"
proof (cases "filter (\<lambda>p. price p \<noteq> None) products = []")
  case True
  then have "\<forall>p\<in>set products. price p = None" by (simp add: filter_empty_conv)
  then have "filter (\<lambda>p. price p = None) products = products" by simp
  with True show ?thesis by (simp add: categorize_products_def)
next
  case False
  define valid where "valid = filter (\<lambda>p. price p \<noteq> None) products"
  have pr: "list_all (\<lambda>p. price p \<noteq> None) valid"
    unfolding valid_def list_all_iff by simp
  from False price_statistics_priced [OF _ pr] obtain stats where
    st: "price_statistics (List.map_filter price valid) = Inr stats"
    unfolding valid_def by blast
  from batch_loop_priced [OF pr, of e stats 0 "[]" w] obtain out w' where
    "batch_loop e stats valid 0 [] w = Inr (out, w')" "list_all2 enriched_from valid out"
    "llm_calls w' = llm_calls w @ map (\<lambda>b. (stats, map summarize b)) (batches batch_size valid)"
    by auto
  with False st show ?thesis
    unfolding valid_def by (simp add: categorize_products_def)
qed

lemma arith_10_20_30:
  "fadd (Finite 0) 10 = Finite 10" "fadd (Finite 10) 20 = Finite 30"
  "fadd (Finite 30) 30 = Finite 60" "fdiv (Finite 60) 3 = Finite 20"
  "fmul (Finite 20) float_0_7 = Finite 14" "fmul (Finite 20) float_1_3 = Finite 26"
  unfolding float_0_7_def float_1_3_def
  by (simp_all only: fadd.simps fdiv.simps fmul.simps)
     (subst round64_ge1 [where n = 3], simp_all add: round_half_even_def Let_def,
      subst round64_ge1 [where n = 4], simp_all add: round_half_even_def Let_def,
      subst round64_ge1 [where n = 5], simp_all add: round_half_even_def Let_def,
      subst round64_ge1 [where n = 4], simp_all add: round_half_even_def Let_def,
      subst round64_ge1 [where n = 3], simp_all add: round_half_even_def Let_def,
      subst round64_ge1 [where n = 4], simp_all add: round_half_even_def Let_def)

lemma arith_2_03_3_77:
  "round64 (203 / 100) = Finite double_2_03" "round64 (377 / 100) = Finite double_3_77"
  "fadd (Finite 0) double_2_03 = Finite double_2_03"
  "fadd (Finite double_2_03) double_3_77 = Finite double_5_8"
  "fdiv (Finite double_5_8) 2 = Finite double_2_9"
  "fmul (Finite double_2_9) float_0_7 = Finite double_2_03"
  "fmul (Finite double_2_9) float_1_3 = Finite double_3_77"
  unfolding float_0_7_def float_1_3_def double_2_03_def double_3_77_def double_5_8_def
    double_2_9_def
  by (simp_all only: fadd.simps fdiv.simps fmul.simps)
     (subst round64_ge1 [where n = 1], simp_all add: round_half_even_def Let_def,
      subst round64_ge1 [where n = 1], simp_all add: round_half_even_def Let_def,
      subst round64_ge1 [where n = 1], simp_all add: round_half_even_def Let_def,
      subst round64_ge1 [where n = 2], simp_all add: round_half_even_def Let_def,
      subst round64_ge1 [where n = 1], simp_all add: round_half_even_def Let_def,
      subst round64_ge1 [where n = 1], simp_all add: round_half_even_def Let_def,
      subst round64_ge1 [where n = 1], simp_all add: round_half_even_def Let_def)

lemma stats_10_20_30:
  "price_statistics [10, 20, 30] = Inr \<lparr> min' = 10, max' = 30, avg = Finite 20 \<rparr>"
proof -
  have "foldl fadd (Finite 0) [10, 20, 30] = Finite 60"
    by (simp only: foldl.simps arith_10_20_30)
  moreover have "length [10, 20, 30 :: real] = 3" by simp
  moreover have "fold min [20, 30] (10::real) = 10" "fold max [20, 30] (10::real) = 30"
    by simp_all
  ultimately show ?thesis
    by (simp only: price_statistics.simps arith_10_20_30)
qed

lemma stats_2_03_3_77:
  "price_statistics [double_2_03, double_3_77]
     = Inr \<lparr> min' = double_2_03, max' = double_3_77, avg = Finite double_2_9 \<rparr>"
proof -
  have "foldl fadd (Finite 0) [double_2_03, double_3_77] = Finite double_5_8"
    by (simp only: foldl.simps arith_2_03_3_77)
  moreover have "length [double_2_03, double_3_77] = 2" by simp
  moreover have "fold min [double_3_77] double_2_03 = double_2_03"
    "fold max [double_3_77] double_2_03 = double_3_77"
    by (simp_all add: double_2_03_def double_3_77_def)
  ultimately show ?thesis
    by (simp only: price_statistics.simps arith_2_03_3_77)
qed

lemma apply_fallback_all_labels:
  assumes "list_all (\<lambda>p. price p \<noteq> None) ps"
  shows "\<exists>ps' w'. apply_fallback_all e ps stats w = Inr (ps', w')
           \<and> map ai_category ps' = map (\<lambda>p. category_json (fallback_categorization p stats)) ps
           \<and> map ai_reasoning ps'
               = map (\<lambda>p. Some (JStr ''Rule-based categorization (AI unavailable)'')) ps"
  using assms
proof (induction ps arbitrary: w)
  case Nil
  then show ?case by simp
next
  case (Cons p ps)
  then obtain x where x: "price p = Some x" and rest: "list_all (\<lambda>p. price p \<noteq> None) ps"
    by auto
  define c where "c = (if flt x (fmul (avg stats) float_0_7) then ''Budget''
                else if flt x (fmul (avg stats) float_1_3) then ''Mid Range''
                else ''High End'')"
  have fc: "fallback_categorization p stats = Inr c"
    unfolding c_def using x by (rule fallback_priced)
  define p' where "p' = stamp p (JStr c)
      (JStr ''Rule-based categorization (AI unavailable)'') (clock e (ticks w))"
  have ap: "apply_fallback e p stats w = Inr (p', w \<lparr> ticks := ticks w + 1 \<rparr>)"
    by (simp add: apply_fallback_def fc p'_def)
  have p'c: "ai_category p' = category_json (fallback_categorization p stats)"
    "ai_reasoning p' = Some (JStr ''Rule-based categorization (AI unavailable)'')"
    by (simp_all add: p'_def stamp_def fc category_json_def)
  from Cons.IH [OF rest, of "w \<lparr> ticks := ticks w + 1 \<rparr>"] obtain ps' w' where
    ps': "apply_fallback_all e ps stats (w \<lparr> ticks := ticks w + 1 \<rparr>) = Inr (ps', w')"
      "map ai_category ps' = map (\<lambda>p. category_json (fallback_categorization p stats)) ps"
      "map ai_reasoning ps'
         = map (\<lambda>p. Some (JStr ''Rule-based categorization (AI unavailable)'')) ps"
    by (elim exE conjE)
  have "apply_fallback_all e (p # ps) stats w = Inr (p' # ps', w')"
    using ps'(1) by (simp add: ap)
  moreover have "map ai_category (p' # ps')
      = map (\<lambda>p. category_json (fallback_categorization p stats)) (p # ps)"
    by (simp add: p'c ps'(2))
  moreover have "map ai_reasoning (p' # ps')
      = map (\<lambda>p. Some (JStr ''Rule-based categorization (AI unavailable)'')) (p # ps)"
    by (simp add: p'c ps'(3))
  ultimately show ?case by (intro exI conjI)
qed

lemma failing_provider_run:
  assumes none: "\<And>k prompt. provider e k prompt = None"
    and priced: "list_all (\<lambda>p. price p \<noteq> None) products"
    and ne: "products \<noteq> []" and len: "length products \<le> batch_size"
    and st: "price_statistics (List.map_filter price products) = Inr stats"
  shows "\<exists>out w'. categorize_products e products w = Inr (out, w')
           \<and> map ai_category out
               = map (\<lambda>p. category_json (fallback_categorization p stats)) products
           \<and> map ai_reasoning out
               = map (\<lambda>p. Some (JStr ''Rule-based categorization (AI unavailable)'')) products"
proof -
  define w1 where "w1 = w \<lparr> llm_calls := llm_calls w @ [(stats, map summarize products)] \<rparr>"
  from apply_fallback_all_labels [OF priced, of e stats w1] obtain out w' where
    out: "apply_fallback_all e products stats w1 = Inr (out, w')"
    and cat: "map ai_category out
               = map (\<lambda>p. category_json (fallback_categorization p stats)) products"
    and rea: "map ai_reasoning out
               = map (\<lambda>p. Some (JStr ''Rule-based categorization (AI unavailable)'')) products"
    by (elim exE conjE)
  have eb: "enrich_batch e products stats w = Inr (out, w')"
    by (simp add: enrich_batch_def Let_def none w1_def [symmetric] out)
  have v: "filter (\<lambda>p. price p \<noteq> None) products = products"
    "filter (\<lambda>p. price p = None) products = []"
    using priced by (simp_all add: list_all_iff filter_empty_conv)
  have tk: "take batch_size products = products" using len by simp
  have l0: "0 < length products" using ne by simp
  have l1: "\<not> 0 + batch_size < length products" using len by simp
  have "batch_loop e stats products (0 + batch_size) ([] @ out) w' = Inr (out, w')"
    using l1 by (subst batch_loop.simps) simp
  then have bl: "batch_loop e stats products 0 [] w = Inr (out, w')"
    using l0 by (subst batch_loop.simps) (simp add: Let_def tk eb)
  have cp: "categorize_products e products w = Inr (out, w')"
    unfolding categorize_products_def Let_def v st using ne bl by simp
  show ?thesis by (intro exI conjI) (rule cp cat rea)+
qed

lemma fallback_run:
  assumes "map price products = [Some 10, Some 20, Some 30]"
    and "\<And>k prompt. provider e k prompt = None"
  shows "\<exists>out w'. categorize_products e products w = Inr (out, w')
     \<and> map ai_category out
         = [Some (JStr ''Budget''), Some (JStr ''Mid Range''), Some (JStr ''High End'')]
     \<and> map ai_reasoning out
         = replicate 3 (Some (JStr ''Rule-based categorization (AI unavailable)''))"
proof -
  from assms(1) obtain p1 p2 p3 where ps: "products = [p1, p2, p3]"
    and pr: "price p1 = Some 10" "price p2 = Some 20" "price p3 = Some 30"
    by (auto simp: map_eq_Cons_conv)
  define stats where "stats = \<lparr> min' = 10, max' = 30, avg = Finite 20 \<rparr>"
  have "List.map_filter price products = [10, 20, 30]"
    by (simp add: ps pr List.map_filter_simps)
  then have st: "price_statistics (List.map_filter price products) = Inr stats"
    by (simp only: stats_10_20_30 stats_def)
  have th: "fmul (avg stats) float_0_7 = Finite 14" "fmul (avg stats) float_1_3 = Finite 26"
    by (simp_all add: stats_def arith_10_20_30 del: fmul.simps)
  have fb: "fallback_categorization p1 stats = Inr ''Budget''"
    "fallback_categorization p2 stats = Inr ''Mid Range''"
    "fallback_categorization p3 stats = Inr ''High End''"
    by (simp_all add: fallback_priced pr th)
  have "list_all (\<lambda>p. price p \<noteq> None) products" "products \<noteq> []"
    "length products \<le> batch_size"
    by (simp_all add: ps pr batch_size_def)
  from failing_provider_run [OF assms(2) this st, of w] obtain out w' where
    cp: "categorize_products e products w = Inr (out, w')"
    and cat: "map ai_category out
               = map (\<lambda>p. category_json (fallback_categorization p stats)) products"
    and rea: "map ai_reasoning out
               = map (\<lambda>p. Some (JStr ''Rule-based categorization (AI unavailable)'')) products"
    by (elim exE conjE)
  from cat have cat': "map ai_category out
         = [Some (JStr ''Budget''), Some (JStr ''Mid Range''), Some (JStr ''High End'')]"
    by (simp add: ps fb category_json_def)
  from rea have rea': "map ai_reasoning out
         = replicate 3 (Some (JStr ''Rule-based categorization (AI unavailable)''))"
    by (simp add: ps numeral_3_eq_3)
  show ?thesis by (intro exI conjI) (rule cp cat' rea')+
qed

text \<open>
  Claim C1, with the thresholds as the program computes them. For a priced product the
  fallback rule gives \<open>Budget\<close> when the price is below the binary64 product of the
  average and 0.7, \<open>Mid Range\<close> when it is not but is below the binary64 product of the
  average and 1.3, and \<open>High End\<close> otherwise; 0.7 and 1.3 are the binary64 numbers of the
  literals. When the provider fails, products priced 10, 20 and 30 have the average 20
  and the thresholds 14 and 26, and get \<open>Budget\<close>, \<open>Mid Range\<close> and \<open>High End\<close> with the
  rule-based reasoning.
\<close>

theorem fallback_categorization_rule:
  "(price p = Some x \<and> flt x (fmul (avg stats) float_0_7) \<longrightarrow>
      fallback_categorization p stats = Inr ''Budget'')
   \<and> (price p = Some x \<and> \<not> flt x (fmul (avg stats) float_0_7)
        \<and> flt x (fmul (avg stats) float_1_3) \<longrightarrow>
      fallback_categorization p stats = Inr ''Mid Range'')
   \<and> (price p = Some x \<and> \<not> flt x (fmul (avg stats) float_0_7)
        \<and> \<not> flt x (fmul (avg stats) float_1_3) \<longrightarrow>
      fallback_categorization p stats = Inr ''High End'')
   \<and> (avg stats = Finite a \<longrightarrow>
        fmul (avg stats) float_0_7 = round64 (a * float_0_7)
        \<and> fmul (avg stats) float_1_3 = round64 (a * float_1_3))
   \<and> round64 (7 / 10) = Finite float_0_7 \<and> round64 (13 / 10) = Finite float_1_3
   \<and> price_statistics [10, 20, 30] = Inr \<lparr> min' = 10, max' = 30, avg = Finite 20 \<rparr>
   \<and> fmul (Finite 20) float_0_7 = Finite 14 \<and> fmul (Finite 20) float_1_3 = Finite 26
   \<and> (map price products = [Some 10, Some 20, Some 30]
        \<and> (\<forall>k prompt. provider e k prompt = None) \<longrightarrow>
      (\<exists>out w'. categorize_products e products w = Inr (out, w')
         \<and> map ai_category out
             = [Some (JStr ''Budget''), Some (JStr ''Mid Range''), Some (JStr ''High End'')]
         \<and> map ai_reasoning out
             = replicate 3 (Some (JStr ''Rule-based categorization (AI unavailable)''))))"
proof (intro conjI impI)
  show "fallback_categorization p stats = Inr ''Budget''"
    if "price p = Some x \<and> flt x (fmul (avg stats) float_0_7)"
    using that by (simp add: fallback_priced)
  show "fallback_categorization p stats = Inr ''Mid Range''"
    if "price p = Some x \<and> \<not> flt x (fmul (avg stats) float_0_7)
        \<and> flt x (fmul (avg stats) float_1_3)"
    using that by (simp add: fallback_priced)
  show "fallback_categorization p stats = Inr ''High End''"
    if "price p = Some x \<and> \<not> flt x (fmul (avg stats) float_0_7)
        \<and> \<not> flt x (fmul (avg stats) float_1_3)"
    using that by (simp add: fallback_priced)
  show "fmul (avg stats) float_0_7 = round64 (a * float_0_7)"
    "fmul (avg stats) float_1_3 = round64 (a * float_1_3)" if "avg stats = Finite a"
    using that by simp_all
  show "round64 (7 / 10) = Finite float_0_7" "round64 (13 / 10) = Finite float_1_3"
    by (rule round_literals)+
  show "price_statistics [10, 20, 30] = Inr \<lparr> min' = 10, max' = 30, avg = Finite 20 \<rparr>"
    by (rule stats_10_20_30)
  show "fmul (Finite 20) float_0_7 = Finite 14" "fmul (Finite 20) float_1_3 = Finite 26"
    by (rule arith_10_20_30)+
  show "\<exists>out w'. categorize_products e products w = Inr (out, w')
         \<and> map ai_category out
             = [Some (JStr ''Budget''), Some (JStr ''Mid Range''), Some (JStr ''High End'')]
         \<and> map ai_reasoning out
             = replicate 3 (Some (JStr ''Rule-based categorization (AI unavailable)''))"
    if "map price products = [Some 10, Some 20, Some 30]
        \<and> (\<forall>k prompt. provider e k prompt = None)"
  proof -
    from that have a: "map price products = [Some 10, Some 20, Some 30]"
      by (rule conjunct1)
    from that have b: "provider e k prompt = None" for k prompt
      by blast
    from fallback_run [OF a b] show ?thesis .
  qed
qed

text \<open>The theorem at products priced 10, 20 and 30 and a provider that always fails.\<close>

theorem fallback_categorization_rule_witness:
  "fallback_categorization (sample_product ''books_toscrape_1'' (Some 10))
      \<lparr> min' = 10, max' = 30, avg = Finite 20 \<rparr> = Inr ''Budget''
   \<and> fallback_categorization (sample_product ''books_toscrape_2'' (Some 20))
      \<lparr> min' = 10, max' = 30, avg = Finite 20 \<rparr> = Inr ''Mid Range''
   \<and> fallback_categorization (sample_product ''books_toscrape_3'' (Some 30))
      \<lparr> min' = 10, max' = 30, avg = Finite 20 \<rparr> = Inr ''High End''
   \<and> fmul (avg \<lparr> min' = 10, max' = 30, avg = Finite 20 \<rparr>) float_0_7 = round64 (20 * float_0_7)
   \<and> fmul (avg \<lparr> min' = 10, max' = 30, avg = Finite 20 \<rparr>) float_1_3 = round64 (20 * float_1_3)
   \<and> (\<exists>out w'. categorize_products failing_env
          [sample_product ''books_toscrape_1'' (Some 10),
           sample_product ''books_toscrape_2'' (Some 20),
           sample_product ''books_toscrape_3'' (Some 30)] initial_world = Inr (out, w')
         \<and> map ai_category out
             = [Some (JStr ''Budget''), Some (JStr ''Mid Range''), Some (JStr ''High End'')]
         \<and> map ai_reasoning out
             = replicate 3 (Some (JStr ''Rule-based categorization (AI unavailable)'')))"
proof -
  define stats where "stats = \<lparr> min' = 10, max' = 30, avg = Finite 20 \<rparr>"
  define p1 where "p1 = sample_product ''books_toscrape_1'' (Some 10)"
  define p2 where "p2 = sample_product ''books_toscrape_2'' (Some 20)"
  define p3 where "p3 = sample_product ''books_toscrape_3'' (Some 30)"
  note r1 = fallback_categorization_rule [of p1 10 stats 20 "[p1, p2, p3]" failing_env initial_world]
  note r2 = fallback_categorization_rule [of p2 20 stats 20 "[p1, p2, p3]" failing_env initial_world]
  note r3 = fallback_categorization_rule [of p3 30 stats 20 "[p1, p2, p3]" failing_env initial_world]
  note t1 = r1 [THEN conjunct2, THEN conjunct2, THEN conjunct2, THEN conjunct2,
      THEN conjunct2, THEN conjunct2, THEN conjunct2, THEN conjunct1]
  note t2 = r1 [THEN conjunct2, THEN conjunct2, THEN conjunct2, THEN conjunct2,
      THEN conjunct2, THEN conjunct2, THEN conjunct2, THEN conjunct2, THEN conjunct1]
  have th: "fmul (avg stats) float_0_7 = Finite 14" "fmul (avg stats) float_1_3 = Finite 26"
    using t1 t2 by (simp_all add: stats_def del: fmul.simps)
  have a: "price p1 = Some 10 \<and> flt 10 (fmul (avg stats) float_0_7)"
    by (simp add: th) (simp add: p1_def sample_product_def)
  have b: "price p2 = Some 20 \<and> \<not> flt 20 (fmul (avg stats) float_0_7)
      \<and> flt 20 (fmul (avg stats) float_1_3)"
    by (simp add: th) (simp add: p2_def sample_product_def)
  have c: "price p3 = Some 30 \<and> \<not> flt 30 (fmul (avg stats) float_0_7)
      \<and> \<not> flt 30 (fmul (avg stats) float_1_3)"
    by (simp add: th) (simp add: p3_def sample_product_def)
  have d: "avg stats = Finite 20" by (simp add: stats_def)
  have e: "map price [p1, p2, p3] = [Some 10, Some 20, Some 30]
      \<and> (\<forall>k prompt. provider failing_env k prompt = None)"
    by (simp add: p1_def p2_def p3_def sample_product_def failing_env_def)
  note c1 = r1 [THEN conjunct1, THEN mp, OF a]
  note c2 = r2 [THEN conjunct2, THEN conjunct1, THEN mp, OF b]
  note c3 = r3 [THEN conjunct2, THEN conjunct2, THEN conjunct1, THEN mp, OF c]
  note c4 = r3 [THEN conjunct2, THEN conjunct2, THEN conjunct2, THEN conjunct1, THEN mp, OF d]
  note c5 = r3 [THEN conjunct2, THEN conjunct2, THEN conjunct2, THEN conjunct2,
      THEN conjunct2, THEN conjunct2, THEN conjunct2, THEN conjunct2, THEN conjunct2,
      THEN mp, OF e]
  from c1 c2 c3 c4 c5 show ?thesis
    unfolding stats_def p1_def p2_def p3_def by (intro conjI) (elim conjE, assumption)+
qed

text \<open>
  Claim C1 as it is written compares the price with 0.7 and 1.3 times the average; the
  program compares it with the rounded products. The page prices 2.03 and 3.77 are the
  binary64 numbers \<open>double_2_03\<close> and \<open>double_3_77\<close>; their sum is the binary64 number
  of 5.8 and their average that of 2.9. The product of the average and 0.7 rounds down
  to \<open>double_2_03\<close>. So the first price is not below the threshold of the program, and
  the product is \<open>Mid Range\<close>; but it is below 0.7 times the average, whether 0.7 is
  the number 7/10 or the binary64 number of the literal, and the claim gives \<open>Budget\<close>.
\<close>

theorem fallback_categorization_rounding:
  "round64 (203 / 100) = Finite double_2_03 \<and> round64 (377 / 100) = Finite double_3_77
   \<and> price_statistics [double_2_03, double_3_77]
       = Inr \<lparr> min' = double_2_03, max' = double_3_77, avg = Finite double_2_9 \<rparr>
   \<and> fmul (Finite double_2_9) float_0_7 = Finite double_2_03
   \<and> double_2_03 < 0.7 * double_2_9
   \<and> double_2_03 < float_0_7 * double_2_9
   \<and> fallback_categorization (sample_product ''books_toscrape_1'' (Some double_2_03))
        \<lparr> min' = double_2_03, max' = double_3_77, avg = Finite double_2_9 \<rparr>
       = Inr ''Mid Range''
   \<and> map_sum id (map ai_category \<circ> fst)
        (categorize_products failing_env
          [sample_product ''books_toscrape_1'' (Some double_2_03),
           sample_product ''books_toscrape_2'' (Some double_3_77)] initial_world)
       = Inr [Some (JStr ''Mid Range''), Some (JStr ''High End'')]"
proof -
  define stats where
    "stats = \<lparr> min' = double_2_03, max' = double_3_77, avg = Finite double_2_9 \<rparr>"
  define p1 where "p1 = sample_product ''books_toscrape_1'' (Some double_2_03)"
  define p2 where "p2 = sample_product ''books_toscrape_2'' (Some double_3_77)"
  have pr: "price p1 = Some double_2_03" "price p2 = Some double_3_77"
    by (simp_all add: p1_def p2_def sample_product_def)
  have th: "fmul (avg stats) float_0_7 = Finite double_2_03"
    "fmul (avg stats) float_1_3 = Finite double_3_77"
    by (simp_all add: stats_def arith_2_03_3_77 del: fmul.simps)
  have lt: "double_2_03 < double_3_77"
    by (simp add: double_2_03_def double_3_77_def)
  have fb: "fallback_categorization p1 stats = Inr ''Mid Range''"
    "fallback_categorization p2 stats = Inr ''High End''"
    using lt by (simp_all add: fallback_priced pr th)
  have exact: "double_2_03 < 0.7 * double_2_9" "double_2_03 < float_0_7 * double_2_9"
    by (simp_all add: double_2_03_def double_2_9_def float_0_7_def)
  have "List.map_filter price [p1, p2] = [double_2_03, double_3_77]"
    by (simp add: pr List.map_filter_simps)
  then have st: "price_statistics (List.map_filter price [p1, p2]) = Inr stats"
    by (simp only: stats_2_03_3_77 stats_def)
  have "list_all (\<lambda>p. price p \<noteq> None) [p1, p2]" "[p1, p2] \<noteq> []"
    "length [p1, p2] \<le> batch_size"
    by (simp_all add: pr batch_size_def)
  from failing_provider_run [of failing_env, OF _ this st, of initial_world]
  obtain out w' where
    cp: "categorize_products failing_env [p1, p2] initial_world = Inr (out, w')"
    and cat: "map ai_category out
               = map (\<lambda>p. category_json (fallback_categorization p stats)) [p1, p2]"
    by (auto simp: failing_env_def)
  from cat have "map ai_category out = [Some (JStr ''Mid Range''), Some (JStr ''High End'')]"
    by (simp add: fb category_json_def)
  with cp have run: "map_sum id (map ai_category \<circ> fst)
        (categorize_products failing_env [p1, p2] initial_world)
       = Inr [Some (JStr ''Mid Range''), Some (JStr ''High End'')]"
    by simp
  show ?thesis
    using arith_2_03_3_77(1,2) stats_2_03_3_77 arith_2_03_3_77(6) exact fb(1) run
    unfolding stats_def p1_def p2_def by (intro conjI)
qed

text \<open>
  Claim C6. The prompts sent to the provider are, in order, those of the consecutive
  slices of 20 priced products: the slices put together give the priced products in
  input order, every slice has 20 products except that a last, smaller one holds the
  remainder, and 41 priced products give slices of 20, 20 and 1.
\<close>

theorem categorize_products_batches:
  "(let valid = filter (\<lambda>p. price p \<noteq> None) products
    in (\<exists>out w' stats.
          categorize_products e products w = Inr (out, w')
          \<and> llm_calls w' = llm_calls w @ map (\<lambda>b. (stats, map summarize b)) (batches 20 valid))
       \<and> concat (batches 20 valid) = valid
       \<and> map length (batches 20 valid) =
           replicate (length valid div 20) 20 @
           (if length valid mod 20 = 0 then [] else [length valid mod 20])
       \<and> (length valid = 41 \<longrightarrow> map length (batches 20 valid) = [20, 20, 1]))"
proof -
  define valid where "valid = filter (\<lambda>p. price p \<noteq> None) products"
  from categorize_products_run [of e products w] obtain enriched w' stats where
    "categorize_products e products w =
       Inr (enriched @ filter (\<lambda>p. price p = None) products, w')"
    "llm_calls w' = llm_calls w @ map (\<lambda>b. (stats, map summarize b)) (batches 20 valid)"
    unfolding valid_def batch_size_def by blast
  then have a: "\<exists>out w' stats.
          categorize_products e products w = Inr (out, w')
          \<and> llm_calls w' = llm_calls w @ map (\<lambda>b. (stats, map summarize b)) (batches 20 valid)"
    by blast
  have b: "concat (batches 20 valid) = valid"
    by (rule concat_batches) simp
  have c: "map length (batches 20 valid) =
           replicate (length valid div 20) 20 @
           (if length valid mod 20 = 0 then [] else [length valid mod 20])"
    by (rule length_batches) simp
  have d: "map length (batches 20 valid) = [20, 20, 1]" if "length valid = 41"
    unfolding c that by (simp add: numeral_2_eq_2)
  from a b c d show ?thesis
    unfolding valid_def [symmetric] Let_def by blast
qed

text \<open>The theorem at 41 copies of a priced product.\<close>

theorem categorize_products_batches_witness:
  "length (filter (\<lambda>p. price p \<noteq> None) (replicate 41 (sample_product ''books_toscrape_1'' (Some 10)))) = 41
   \<and> map length (batches 20 (filter (\<lambda>p. price p \<noteq> None)
        (replicate 41 (sample_product ''books_toscrape_1'' (Some 10))))) = [20, 20, 1]"
proof -
  have h: "length (filter (\<lambda>p. price p \<noteq> None)
      (replicate 41 (sample_product ''books_toscrape_1'' (Some 10)))) = 41"
    by (simp add: sample_product_def)
  from categorize_products_batches
    [of "replicate 41 (sample_product ''books_toscrape_1'' (Some 10))" failing_env initial_world]
  have "length (filter (\<lambda>p. price p \<noteq> None)
      (replicate 41 (sample_product ''books_toscrape_1'' (Some 10)))) = 41 \<longrightarrow>
    map length (batches 20 (filter (\<lambda>p. price p \<noteq> None)
        (replicate 41 (sample_product ''books_toscrape_1'' (Some 10))))) = [20, 20, 1]"
    unfolding Let_def by (elim conjE)
  with h show ?thesis by (intro conjI) (rule h, erule mp, rule h)
qed

text \<open>
  Claim C7. The result is the enriched priced products followed by the unpriced
  products of the input, the latter exactly as they were given. Each enriched product
  is its priced input with the three enrichment fields set.
\<close>

theorem categorize_products_partition:
  "\<exists>enriched w'.
     categorize_products e products w =
       Inr (enriched @ filter (\<lambda>p. price p = None) products, w')
     \<and> list_all2 enriched_from (filter (\<lambda>p. price p \<noteq> None) products) enriched"
  using categorize_products_run [of e products w] by blast

text \<open>
  Claim C10. When no product of the input has a price, the input list is returned as
  it is and the state, with its record of provider calls, is unchanged.
\<close>

theorem categorize_products_unpriced:
  assumes "list_all (\<lambda>p. price p = None) products"
  shows "categorize_products e products w = Inr (products, w)"
proof -
  from assms have "filter (\<lambda>p. price p \<noteq> None) products = []"
    by (simp add: list_all_iff filter_empty_conv)
  then show ?thesis
    unfolding categorize_products_def Let_def by simp
qed

text \<open>The theorem at two unpriced products.\<close>

theorem categorize_products_unpriced_witness:
  "list_all (\<lambda>p. price p = None)
     [sample_product ''books_toscrape_1'' None, sample_product ''books_toscrape_2'' None]
   \<and> categorize_products failing_env
        [sample_product ''books_toscrape_1'' None, sample_product ''books_toscrape_2'' None]
        initial_world
      = Inr ([sample_product ''books_toscrape_1'' None, sample_product ''books_toscrape_2'' None],
             initial_world)"
proof -
  have h: "list_all (\<lambda>p. price p = None)
     [sample_product ''books_toscrape_1'' None, sample_product ''books_toscrape_2'' None]"
    by (simp add: sample_product_def)
  from h categorize_products_unpriced [OF h, of failing_env initial_world]
  show ?thesis by (intro conjI)
qed

section \<open>Properties of the scrape orchestrator\<close>

lemma extract_loop_eq:
  "extract_loop body idx elems acc =
     acc @ concat (map (\<lambda>(i, el). case body i el of Inr p \<Rightarrow> [p] | Inl _ \<Rightarrow> [])
                     (enumerate idx elems))"
  by (induction elems arbitrary: idx acc) (auto split: sum.splits)

lemma length_concat_le:
  "length (concat (map (\<lambda>(i, el). case body i el of Inr p \<Rightarrow> [p] | Inl _ \<Rightarrow> []) xs))
     \<le> length xs"
  by (induction xs) (auto split: sum.splits)

lemma extract_loop_length: "length (extract_loop body idx elems []) \<le> length elems"
  using length_concat_le [of body "enumerate idx elems"] by (simp add: extract_loop_eq)

lemma extract_loop_all_ok:
  assumes "\<And>i el. \<exists>p. body i el = Inr p \<and> f p = g i"
  shows "map f (extract_loop body idx elems acc) = map f acc @ map g [idx..<idx + length elems]"
proof (induction elems arbitrary: idx acc)
  case Nil
  then show ?case by simp
next
  case (Cons el elems)
  from assms obtain p where p: "body idx el = Inr p" "f p = g idx" by blast
  have "idx < idx + length (el # elems)" by simp
  then have "[idx..<idx + length (el # elems)] = idx # [Suc idx..<idx + length (el # elems)]"
    by (rule upt_conv_Cons)
  then have "[idx..<idx + length (el # elems)] = idx # [Suc idx..<Suc idx + length elems]"
    by simp
  with p Cons.IH [of "Suc idx" "acc @ [p]"] show ?case by simp
qed

lemma py_slice_to_nonneg: "0 \<le> stop \<Longrightarrow> py_slice_to xs stop = take (nat stop) xs"
  by (simp add: py_slice_to_def)

lemma extract_product_ok:
  assumes "selectors cfg ''name'' \<noteq> None" "selectors cfg ''price'' \<noteq> None"
    "selectors cfg ''rating'' \<noteq> None" "selectors cfg ''availability'' \<noteq> None"
  shows "\<exists>p. extract_product tn cfg clk idx el = Inr p \<and> id' p = tn @ ''_'' @ str_nat (Suc idx)"
  using assms by (auto simp: extract_product_def Let_def)

lemma extract_products_ids:
  assumes "selectors cfg ''product_container'' = Some c"
    "selectors cfg ''name'' \<noteq> None" "selectors cfg ''price'' \<noteq> None"
    "selectors cfg ''rating'' \<noteq> None" "selectors cfg ''availability'' \<noteq> None"
  shows "\<exists>ps. extract_products tn cfg clk page max_products = Inr ps
           \<and> map id' ps = map (\<lambda>i. tn @ ''_'' @ str_nat (Suc i))
                             [0..<length (py_slice_to (page c) max_products)]"
proof -
  have ok: "\<exists>p. extract_product tn cfg clk i el = Inr p \<and> id' p = tn @ ''_'' @ str_nat (Suc i)"
    for i el
    by (rule extract_product_ok [OF assms(2-5)])
  have "map id' (extract_loop (extract_product tn cfg clk) 0 (py_slice_to (page c) max_products) [])
          = map (\<lambda>i. tn @ ''_'' @ str_nat (Suc i))
              [0..<length (py_slice_to (page c) max_products)]"
    using extract_loop_all_ok
      [of "extract_product tn cfg clk" id' "\<lambda>i. tn @ ''_'' @ str_nat (Suc i)" 0
          "py_slice_to (page c) max_products" "[]", OF ok]
    by simp
  then show ?thesis
    by (simp add: extract_products_def assms(1))
qed

lemma str_nat_digits:
  "str_nat 1 = ''1''" "str_nat (Suc 0) = ''1''" "str_nat 2 = ''2''"
  "str_nat (Suc (Suc 0)) = ''2''" "str_nat 3 = ''3''"
  by (subst str_nat.simps, simp add: digit_char_def)+

lemma ids3:
  "map (\<lambda>i. tn @ ''_'' @ str_nat (Suc i)) [0..<3] = [tn @ ''_1'', tn @ ''_2'', tn @ ''_3'']"
proof -
  have "[0..<3] = [0, Suc 0, Suc (Suc 0)]" by (simp add: upt_rec)
  then show ?thesis
    using str_nat_digits by (simp add: numeral_2_eq_2 numeral_3_eq_3)
qed

lemma five_second_fails:
  assumes "5 \<le> max_products" "body 0 e0 = Inr p0" "body 1 e1 = Inl err" "body 2 e2 = Inr p2"
    "body 3 e3 = Inr p3" "body 4 e4 = Inr p4"
  shows "extract_loop body 0 (py_slice_to [e0, e1, e2, e3, e4] max_products) [] = [p0, p2, p3, p4]"
proof -
  from assms(1) have "py_slice_to [e0, e1, e2, e3, e4] max_products = [e0, e1, e2, e3, e4]"
    by (simp add: py_slice_to_def)
  moreover have "extract_loop body 0 [e0, e1, e2, e3, e4] [] = [p0, p2, p3, p4]"
    using assms(2-) by (simp add: eval_nat_numeral)
  ultimately show ?thesis by simp
qed


lemma extract_products_complete:
  assumes "0 \<le> max_products"
    and h: "selectors cfg ''product_container'' = Some c
        \<and> selectors cfg ''name'' \<noteq> None \<and> selectors cfg ''price'' \<noteq> None
        \<and> selectors cfg ''rating'' \<noteq> None \<and> selectors cfg ''availability'' \<noteq> None"
  shows "\<exists>ps. extract_products tn cfg clk page max_products = Inr ps
         \<and> length ps = min (length (page c)) (nat max_products)
         \<and> map id' ps = map (\<lambda>i. tn @ ''_'' @ str_nat (Suc i))
                           [0..<min (length (page c)) (nat max_products)]
         \<and> (length (page c) = 5 \<and> max_products = 3 \<longrightarrow>
              map id' ps = [tn @ ''_1'', tn @ ''_2'', tn @ ''_3''])"
proof -
  from h have h1: "selectors cfg ''product_container'' = Some c"
    and h2: "selectors cfg ''name'' \<noteq> None" and h3: "selectors cfg ''price'' \<noteq> None"
    and h4: "selectors cfg ''rating'' \<noteq> None" and h5: "selectors cfg ''availability'' \<noteq> None"
    by simp_all
  from extract_products_ids [OF h1 h2 h3 h4 h5, of tn clk page max_products] obtain ps where
    ps: "extract_products tn cfg clk page max_products = Inr ps"
    and ids: "map id' ps = map (\<lambda>i. tn @ ''_'' @ str_nat (Suc i))
                             [0..<length (py_slice_to (page c) max_products)]"
    by (elim exE conjE)
  have l: "length (py_slice_to (page c) max_products) = min (length (page c)) (nat max_products)"
    using assms(1) by (simp add: py_slice_to_nonneg)
  from ids have m: "map id' ps = map (\<lambda>i. tn @ ''_'' @ str_nat (Suc i))
                           [0..<min (length (page c)) (nat max_products)]"
    unfolding l .
  from arg_cong [OF m, of length] have n: "length ps = min (length (page c)) (nat max_products)"
    by simp
  have k: "length (page c) = 5 \<and> max_products = 3 \<longrightarrow>
      map id' ps = [tn @ ''_1'', tn @ ''_2'', tn @ ''_3'']"
  proof
    assume "length (page c) = 5 \<and> max_products = 3"
    then have "min (length (page c)) (nat max_products) = 3" by simp
    with m have "map id' ps = map (\<lambda>i. tn @ ''_'' @ str_nat (Suc i)) [0..<3]" by simp
    then show "map id' ps = [tn @ ''_1'', tn @ ''_2'', tn @ ''_3'']"
      unfolding ids3 .
  qed
  show ?thesis
    by (rule exI [of _ ps]) (intro conjI ps n m k)
qed

text \<open>
  Claim C5, for a cap that is not negative. Whatever the loop body does, the products
  are those of the first \<open>max_products\<close> elements whose extraction did not raise, in
  order, and there are at most \<open>max_products\<close> of them. With the selectors of the target
  in place the ids count from 1 upwards; five elements and a cap of 3 give three
  products with the ordinals 1, 2, 3; when the second of five elements raises, the
  other four are returned.
\<close>

theorem extract_products_cap:
  assumes "0 \<le> max_products"
  shows
  "extract_loop body 0 (py_slice_to elems max_products) [] =
     concat (map (\<lambda>(idx, el). case body idx el of Inr p \<Rightarrow> [p] | Inl _ \<Rightarrow> [])
               (enumerate 0 (take (nat max_products) elems)))
   \<and> length (extract_loop body 0 (py_slice_to elems max_products) []) \<le> nat max_products
   \<and> (selectors cfg ''product_container'' = Some c
        \<and> selectors cfg ''name'' \<noteq> None \<and> selectors cfg ''price'' \<noteq> None
        \<and> selectors cfg ''rating'' \<noteq> None \<and> selectors cfg ''availability'' \<noteq> None \<longrightarrow>
      (\<exists>ps. extract_products tn cfg clk page max_products = Inr ps
         \<and> length ps = min (length (page c)) (nat max_products)
         \<and> map id' ps = map (\<lambda>i. tn @ ''_'' @ str_nat (Suc i))
                           [0..<min (length (page c)) (nat max_products)]
         \<and> (length (page c) = 5 \<and> max_products = 3 \<longrightarrow>
              map id' ps = [tn @ ''_1'', tn @ ''_2'', tn @ ''_3''])))
   \<and> (5 \<le> max_products \<and> body 0 e0 = Inr p0 \<and> body 1 e1 = Inl err \<and> body 2 e2 = Inr p2
        \<and> body 3 e3 = Inr p3 \<and> body 4 e4 = Inr p4 \<longrightarrow>
      extract_loop body 0 (py_slice_to [e0, e1, e2, e3, e4] max_products) [] = [p0, p2, p3, p4])"
proof (intro conjI impI)
  show "extract_loop body 0 (py_slice_to elems max_products) [] =
     concat (map (\<lambda>(idx, el). case body idx el of Inr p \<Rightarrow> [p] | Inl _ \<Rightarrow> [])
               (enumerate 0 (take (nat max_products) elems)))"
    using assms by (simp add: extract_loop_eq py_slice_to_nonneg)
  show "length (extract_loop body 0 (py_slice_to elems max_products) []) \<le> nat max_products"
    using extract_loop_length [of body 0 "take (nat max_products) elems"] assms
    by (simp add: py_slice_to_nonneg)
  show "\<exists>ps. extract_products tn cfg clk page max_products = Inr ps
         \<and> length ps = min (length (page c)) (nat max_products)
         \<and> map id' ps = map (\<lambda>i. tn @ ''_'' @ str_nat (Suc i))
                           [0..<min (length (page c)) (nat max_products)]
         \<and> (length (page c) = 5 \<and> max_products = 3 \<longrightarrow>
              map id' ps = [tn @ ''_1'', tn @ ''_2'', tn @ ''_3''])"
    if "selectors cfg ''product_container'' = Some c
        \<and> selectors cfg ''name'' \<noteq> None \<and> selectors cfg ''price'' \<noteq> None
        \<and> selectors cfg ''rating'' \<noteq> None \<and> selectors cfg ''availability'' \<noteq> None"
    using assms that by (rule extract_products_complete)
  show "extract_loop body 0 (py_slice_to [e0, e1, e2, e3, e4] max_products) [] = [p0, p2, p3, p4]"
    if "5 \<le> max_products \<and> body 0 e0 = Inr p0 \<and> body 1 e1 = Inl err \<and> body 2 e2 = Inr p2
        \<and> body 3 e3 = Inr p3 \<and> body 4 e4 = Inr p4"
  proof -
    from that have a: "5 \<le> max_products" "body 0 e0 = Inr p0" "body 1 e1 = Inl err"
      "body 2 e2 = Inr p2" "body 3 e3 = Inr p3" "body 4 e4 = Inr p4" by simp_all
    show ?thesis
      using a by (rule five_second_fails [of max_products body e0 p0 e1 err e2 p2 e3 p3 e4 p4])
  qed
qed


text \<open>The theorem at the books target with five containers and a cap of 3, and at five
  elements of which the second raises.\<close>

theorem extract_products_cap_witness:
  "(0::int) \<le> 3
   \<and> length (sample_page ''article.product_pod'') = 5
   \<and> (\<exists>ps. extract_products ''books_toscrape'' books_toscrape sample_clock sample_page 3 = Inr ps
         \<and> length ps = 3
         \<and> map id' ps = [''books_toscrape_1'', ''books_toscrape_2'', ''books_toscrape_3''])
   \<and> extract_loop second_fails 0
         (py_slice_to [sample_element, sample_element, sample_element, sample_element,
            sample_element] 5) [] = [1, 3, 4, 5]"
proof -
  have h0: "(0::int) \<le> 3" by simp
  have h5: "(0::int) \<le> 5" by simp
  have sel: "selectors books_toscrape ''product_container'' = Some ''article.product_pod''
        \<and> selectors books_toscrape ''name'' \<noteq> None \<and> selectors books_toscrape ''price'' \<noteq> None
        \<and> selectors books_toscrape ''rating'' \<noteq> None
        \<and> selectors books_toscrape ''availability'' \<noteq> None"
    by (simp add: books_toscrape_def)
  have len: "length (sample_page ''article.product_pod'') = 5"
    by (simp add: sample_page_def)
  have sf: "(5::int) \<le> 5 \<and> second_fails 0 sample_element = Inr 1
      \<and> second_fails 1 sample_element = Inl TypeError \<and> second_fails 2 sample_element = Inr 3
      \<and> second_fails 3 sample_element = Inr 4 \<and> second_fails 4 sample_element = Inr 5"
    by (simp add: second_fails_def)
  note t3 = extract_products_cap [OF h0, where cfg = books_toscrape
      and c = "''article.product_pod''" and tn = "''books_toscrape''" and clk = sample_clock
      and page = sample_page]
  note t5 = extract_products_cap [OF h5, where body = second_fails
      and ?e0.0 = sample_element and ?e1.0 = sample_element and ?e2.0 = sample_element
      and ?e3.0 = sample_element and ?e4.0 = sample_element
      and ?p0.0 = 1 and err = TypeError and ?p2.0 = 3 and ?p3.0 = 4 and ?p4.0 = 5]
  from t3 [THEN conjunct2, THEN conjunct2, THEN conjunct1, THEN mp, OF sel] obtain ps where
    ps: "extract_products ''books_toscrape'' books_toscrape sample_clock sample_page 3 = Inr ps"
    and n: "length ps = min (length (sample_page ''article.product_pod'')) (nat 3)"
    and k: "length (sample_page ''article.product_pod'') = 5 \<and> (3::int) = 3 \<longrightarrow>
      map id' ps = [''books_toscrape'' @ ''_1'', ''books_toscrape'' @ ''_2'',
                    ''books_toscrape'' @ ''_3'']"
    by (elim exE conjE)
  from n len have n3: "length ps = 3" by simp
  from k len have ids: "map id' ps
      = [''books_toscrape_1'', ''books_toscrape_2'', ''books_toscrape_3'']" by simp
  have ex: "\<exists>ps. extract_products ''books_toscrape'' books_toscrape sample_clock sample_page 3 = Inr ps
         \<and> length ps = 3
         \<and> map id' ps = [''books_toscrape_1'', ''books_toscrape_2'', ''books_toscrape_3'']"
    by (rule exI [of _ ps]) (intro conjI ps n3 ids)
  note e = t5 [THEN conjunct2, THEN conjunct2, THEN conjunct2, THEN mp, OF sf]
  show ?thesis by (intro conjI h0 len ex e)
qed

text \<open>
  Claim C5 as it is written covers every integer cap. The slice \<open>[:max_products]\<close> with a
  cap of -1 keeps all elements but the last: five containers give four products.
\<close>

theorem extract_products_negative_cap:
  "map_sum id length
     (extract_products ''books_toscrape'' books_toscrape sample_clock sample_page (- 1)) = Inr 4
   \<and> \<not> int 4 \<le> - 1"
proof -
  have "\<exists>ps. extract_products ''books_toscrape'' books_toscrape sample_clock sample_page (- 1) = Inr ps
           \<and> map id' ps = map (\<lambda>i. ''books_toscrape'' @ ''_'' @ str_nat (Suc i))
                 [0..<length (py_slice_to (sample_page ''article.product_pod'') (- 1))]"
    by (rule extract_products_ids) (simp_all add: books_toscrape_def)
  then obtain ps where
    ps: "extract_products ''books_toscrape'' books_toscrape sample_clock sample_page (- 1) = Inr ps"
    and ids: "map id' ps = map (\<lambda>i. ''books_toscrape'' @ ''_'' @ str_nat (Suc i))
                 [0..<length (py_slice_to (sample_page ''article.product_pod'') (- 1))]"
    by (elim exE conjE)
  have "length (py_slice_to (sample_page ''article.product_pod'') (- 1)) = 4"
    by (simp add: py_slice_to_def sample_page_def)
  with arg_cong [OF ids, of length] have "length ps = 4" by simp
  with ps show ?thesis by simp
qed

section \<open>Properties of scroll_to_bottom\<close>

lemma randint_range: "lo \<le> hi \<Longrightarrow> lo \<le> randint rand k lo hi \<and> randint rand k lo hi \<le> hi"
proof -
  assume "lo \<le> hi"
  then have "0 < nat (hi - lo + 1)" by simp
  then have "rand k mod nat (hi - lo + 1) < nat (hi - lo + 1)" by (rule mod_less_divisor)
  then show ?thesis unfolding randint_def by linarith
qed

lemma scroll_loop_step:
  "scroll_loop pg rand k (poll_state pg rand s0 k) (poll pg rand s0 k) =
     (if poll pg rand s0 (Suc k) = poll pg rand s0 k
      then Some (Suc k, poll_state pg rand s0 (Suc k))
      else scroll_loop pg rand (Suc k) (poll_state pg rand s0 (Suc k)) (poll pg rand s0 (Suc k)))"
  by (subst scroll_loop.simps) (simp add: Let_def poll_def)

lemma scroll_loop_stops:
  assumes "poll pg rand s0 (Suc n) = poll pg rand s0 n"
    and "\<And>j. k \<le> j \<Longrightarrow> j < n \<Longrightarrow> poll pg rand s0 (Suc j) \<noteq> poll pg rand s0 j"
    and "k \<le> n"
  shows "scroll_loop pg rand k (poll_state pg rand s0 k) (poll pg rand s0 k)
           = Some (Suc n, poll_state pg rand s0 (Suc n))"
  using assms(2,3)
proof (induction "n - k" arbitrary: k)
  case 0
  then have "k = n" by simp
  with assms(1) show ?case by (simp add: scroll_loop_step)
next
  case (Suc d)
  then have "k < n" by simp
  with Suc.prems(1) [of k] have ne: "poll pg rand s0 (Suc k) \<noteq> poll pg rand s0 k" by simp
  have "scroll_loop pg rand (Suc k) (poll_state pg rand s0 (Suc k)) (poll pg rand s0 (Suc k))
          = Some (Suc n, poll_state pg rand s0 (Suc n))"
  proof (rule Suc.hyps(1))
    show "d = n - Suc k" using Suc.hyps(2) by simp
    show "poll pg rand s0 (Suc j) \<noteq> poll pg rand s0 j" if "Suc k \<le> j" "j < n" for j
      using that Suc.prems(1) [of j] by simp
    show "Suc k \<le> n" using \<open>k < n\<close> by simp
  qed
  with ne show ?case by (subst scroll_loop_step) simp
qed

lemma scroll_loop_result:
  assumes "scroll_loop pg rand k s lh = Some r"
  shows "stops_at pg rand k s lh r"
proof (rule scroll_loop.raw_induct [where P = stops_at, OF _ assms])
  fix f :: "'a page \<Rightarrow> (nat \<Rightarrow> nat) \<Rightarrow> nat \<Rightarrow> 'a \<Rightarrow> int \<Rightarrow> (nat \<times> 'a) option"
  fix pg rand k s lh r
  assume IH: "\<And>pg rand k s lh y. f pg rand k s lh = Some y \<Longrightarrow> stops_at pg rand k s lh y"
  assume body: "(let scroll_increment = randint rand k 300 800;
          s' = wait pg (scroll_by pg scroll_increment s);
          new_height = scroll_height pg s'
      in if new_height = lh then Some (Suc k, s')
         else f pg rand (Suc k) s' new_height) = Some r"
  show "stops_at pg rand k s lh r"
    unfolding stops_at_def
  proof (intro allI impI)
    fix s0
    assume a: "s = poll_state pg rand s0 k \<and> lh = poll pg rand s0 k"
    show "\<exists>n. r = (Suc n, poll_state pg rand s0 (Suc n)) \<and> k \<le> n
              \<and> poll pg rand s0 (Suc n) = poll pg rand s0 n
              \<and> (\<forall>j. k \<le> j \<and> j < n \<longrightarrow> poll pg rand s0 (Suc j) \<noteq> poll pg rand s0 j)"
    proof (cases "poll pg rand s0 (Suc k) = poll pg rand s0 k")
      case True
      with a body have "r = (Suc k, poll_state pg rand s0 (Suc k))"
        by (simp add: Let_def poll_def)
      with True show ?thesis by auto
    next
      case False
      with a body have
        "f pg rand (Suc k) (poll_state pg rand s0 (Suc k)) (poll pg rand s0 (Suc k)) = Some r"
        by (simp add: Let_def poll_def)
      from IH [OF this] obtain n where
        n: "r = (Suc n, poll_state pg rand s0 (Suc n))" "Suc k \<le> n"
          "poll pg rand s0 (Suc n) = poll pg rand s0 n"
          "\<forall>j. Suc k \<le> j \<and> j < n \<longrightarrow> poll pg rand s0 (Suc j) \<noteq> poll pg rand s0 j"
        unfolding stops_at_def by blast
      have "\<forall>j. k \<le> j \<and> j < n \<longrightarrow> poll pg rand s0 (Suc j) \<noteq> poll pg rand s0 j"
      proof (intro allI impI)
        fix j
        assume j: "k \<le> j \<and> j < n"
        show "poll pg rand s0 (Suc j) \<noteq> poll pg rand s0 j"
        proof (cases "j = k")
          case True
          with False show ?thesis by simp
        next
          case False
          with j have "Suc k \<le> j \<and> j < n" by simp
          with n(4) show ?thesis by blast
        qed
      qed
      with n show ?thesis by auto
    qed
  qed
qed

lemma scroll_to_bottom_Some:
  "scroll_to_bottom pg rand s = Some (m, s') \<longleftrightarrow>
     (\<exists>n. m = Suc n \<and> s' = poll_state pg rand s (Suc n)
        \<and> poll pg rand s (Suc n) = poll pg rand s n
        \<and> (\<forall>j<n. poll pg rand s (Suc j) \<noteq> poll pg rand s j))"
proof
  assume "scroll_to_bottom pg rand s = Some (m, s')"
  then have "scroll_loop pg rand 0 s (scroll_height pg s) = Some (m, s')"
    by (simp add: scroll_to_bottom_def)
  from scroll_loop_result [OF this]
  have "\<exists>n. (m, s') = (Suc n, poll_state pg rand s (Suc n)) \<and> 0 \<le> n
           \<and> poll pg rand s (Suc n) = poll pg rand s n
           \<and> (\<forall>j. 0 \<le> j \<and> j < n \<longrightarrow> poll pg rand s (Suc j) \<noteq> poll pg rand s j)"
    unfolding stops_at_def by (simp add: poll_def)
  then show "\<exists>n. m = Suc n \<and> s' = poll_state pg rand s (Suc n)
        \<and> poll pg rand s (Suc n) = poll pg rand s n
        \<and> (\<forall>j<n. poll pg rand s (Suc j) \<noteq> poll pg rand s j)"
    by auto
next
  assume "\<exists>n. m = Suc n \<and> s' = poll_state pg rand s (Suc n)
        \<and> poll pg rand s (Suc n) = poll pg rand s n
        \<and> (\<forall>j<n. poll pg rand s (Suc j) \<noteq> poll pg rand s j)"
  then obtain n where n: "m = Suc n" "s' = poll_state pg rand s (Suc n)"
    "poll pg rand s (Suc n) = poll pg rand s n"
    "\<And>j. j < n \<Longrightarrow> poll pg rand s (Suc j) \<noteq> poll pg rand s j" by blast
  have "scroll_loop pg rand 0 (poll_state pg rand s 0) (poll pg rand s 0)
           = Some (Suc n, poll_state pg rand s (Suc n))"
    by (rule scroll_loop_stops [OF n(3)]) (simp_all add: n(4))
  with n(1,2) show "scroll_to_bottom pg rand s = Some (m, s')"
    by (simp add: scroll_to_bottom_def poll_def)
qed

lemma scroll_to_bottom_None:
  "scroll_to_bottom pg rand s = None \<longleftrightarrow>
     (\<forall>n. poll pg rand s (Suc n) \<noteq> poll pg rand s n)"
proof
  assume none: "scroll_to_bottom pg rand s = None"
  show "\<forall>n. poll pg rand s (Suc n) \<noteq> poll pg rand s n"
  proof (rule ccontr)
    assume "\<not> (\<forall>n. poll pg rand s (Suc n) \<noteq> poll pg rand s n)"
    then have ex: "\<exists>n. poll pg rand s (Suc n) = poll pg rand s n" by simp
    define n where "n = (LEAST n. poll pg rand s (Suc n) = poll pg rand s n)"
    from ex have eq: "poll pg rand s (Suc n) = poll pg rand s n"
      unfolding n_def by (rule LeastI_ex)
    have "poll pg rand s (Suc j) \<noteq> poll pg rand s j" if "j < n" for j
      using that not_less_Least unfolding n_def by blast
    with eq have "scroll_to_bottom pg rand s = Some (Suc n, poll_state pg rand s (Suc n))"
      by (subst scroll_to_bottom_Some) blast
    with none show False by simp
  qed
next
  assume all: "\<forall>n. poll pg rand s (Suc n) \<noteq> poll pg rand s n"
  show "scroll_to_bottom pg rand s = None"
  proof (cases "scroll_to_bottom pg rand s")
    case None
    then show ?thesis .
  next
    case (Some r)
    obtain m s' where "r = (m, s')" by (cases r)
    with Some have "scroll_to_bottom pg rand s = Some (m, s')" by simp
    then have "\<exists>n. poll pg rand s (Suc n) = poll pg rand s n"
      by (subst (asm) scroll_to_bottom_Some) blast
    with all show ?thesis by blast
  qed
qed


text \<open>
  Claim C8. \<open>scroll_to_bottom\<close> returns exactly when some poll reports the height of the
  poll before it, after the first such poll; when every poll differs from the one before
  it, as on a page whose height grows at every poll, it never returns. Every scroll
  increment lies between 300 and 800.
\<close>

theorem scroll_to_bottom_fixed_point:
  "(scroll_to_bottom pg rand s = Some (m, s') \<longleftrightarrow>
      (\<exists>n. m = Suc n \<and> s' = poll_state pg rand s (Suc n)
         \<and> poll pg rand s (Suc n) = poll pg rand s n
         \<and> (\<forall>j<n. poll pg rand s (Suc j) \<noteq> poll pg rand s j)))
   \<and> (scroll_to_bottom pg rand s = None \<longleftrightarrow>
        (\<forall>n. poll pg rand s (Suc n) \<noteq> poll pg rand s n))
   \<and> ((\<forall>n. poll pg rand s n < poll pg rand s (Suc n)) \<longrightarrow>
        scroll_to_bottom pg rand s = None)
   \<and> 300 \<le> randint rand k 300 800 \<and> randint rand k 300 800 \<le> 800"
proof (intro conjI impI)
  show "scroll_to_bottom pg rand s = Some (m, s') \<longleftrightarrow>
      (\<exists>n. m = Suc n \<and> s' = poll_state pg rand s (Suc n)
         \<and> poll pg rand s (Suc n) = poll pg rand s n
         \<and> (\<forall>j<n. poll pg rand s (Suc j) \<noteq> poll pg rand s j))"
    by (rule scroll_to_bottom_Some)
  show "scroll_to_bottom pg rand s = None \<longleftrightarrow>
        (\<forall>n. poll pg rand s (Suc n) \<noteq> poll pg rand s n)"
    by (rule scroll_to_bottom_None)
  show "scroll_to_bottom pg rand s = None"
    if "\<forall>n. poll pg rand s n < poll pg rand s (Suc n)"
  proof -
    from that have "\<forall>n. poll pg rand s (Suc n) \<noteq> poll pg rand s n"
      by (metis less_irrefl)
    then show ?thesis by (simp add: scroll_to_bottom_None)
  qed
  show "300 \<le> randint rand k 300 800" "randint rand k 300 800 \<le> 800"
    using randint_range [of 300 800 rand k] by simp_all
qed

text \<open>The theorem at the page with three lazy blocks and at the endless feed.\<close>

theorem scroll_to_bottom_fixed_point_witness:
  "scroll_to_bottom lazy_page sample_rand 0 = Some (4, 4)
   \<and> (\<forall>n. poll endless_page sample_rand 0 n < poll endless_page sample_rand 0 (Suc n))
   \<and> scroll_to_bottom endless_page sample_rand 0 = None"
proof -
  have lz: "poll_state lazy_page sample_rand 0 k = k" for k
    by (induction k) (simp_all add: lazy_page_def)
  have en: "poll_state endless_page sample_rand 0 k = k" for k
    by (induction k) (simp_all add: endless_page_def)
  have hl: "poll lazy_page sample_rand 0 k = 1000 * int (min k 3)" for k
    by (simp add: poll_def lz) (simp add: lazy_page_def)
  have he: "poll endless_page sample_rand 0 k = 1000 * int k" for k
    by (simp add: poll_def en) (simp add: endless_page_def)
  have "\<exists>n. (4::nat) = Suc n \<and> (4::nat) = poll_state lazy_page sample_rand 0 (Suc n)
         \<and> poll lazy_page sample_rand 0 (Suc n) = poll lazy_page sample_rand 0 n
         \<and> (\<forall>j<n. poll lazy_page sample_rand 0 (Suc j) \<noteq> poll lazy_page sample_rand 0 j)"
    by (rule exI [of _ 3]) (simp add: lz hl)
  with scroll_to_bottom_fixed_point [of lazy_page sample_rand 0 4 4]
  have a: "scroll_to_bottom lazy_page sample_rand 0 = Some (4, 4)" by blast
  have g: "\<forall>n. poll endless_page sample_rand 0 n < poll endless_page sample_rand 0 (Suc n)"
    by (simp add: he)
  with scroll_to_bottom_fixed_point [of endless_page sample_rand 0]
  have b: "scroll_to_bottom endless_page sample_rand 0 = None" by blast
  from a g b show ?thesis by (intro conjI)
qed

section \<open>Properties of the raw output file\<close>

lemma json_product_inverse: "json_product (product_json p) = Some p"
  by (cases p; cases "ai_category p"; cases "ai_reasoning p"; cases "enriched_at p")
    (simp_all add: product_json_def opt_key_def opt_num_def get_str_def get_num_def
      get_obj_def get_opt_str_def split: option.splits)

lemma json_products_inverse: "those (map (json_product \<circ> product_json) ps) = Some ps"
  by (induction ps) (simp_all add: json_product_inverse)

lemma json_metadata_inverse: "json_metadata (metadata_json m) = Some m"
  by (cases m) (simp add: metadata_json_def get_str_def get_nat_def)

lemma json_document_inverse: "json_document (document_json d) = Some d"
  by (cases d; cases "doc_metadata d"; cases "doc_products d")
    (simp_all add: document_json_def opt_key_def get_opt_def json_metadata_inverse
      json_products_inverse)

lemma save_then_load:
  assumes "json_load (json_dump \<lparr> doc_metadata = Some \<lparr> target = target_name,
                 total_products = length products, meta_scraped_at = now \<rparr>,
              doc_products = Some products \<rparr>)
           = Some \<lparr> doc_metadata = Some \<lparr> target = target_name,
                 total_products = length products, meta_scraped_at = now \<rparr>,
              doc_products = Some products \<rparr>"
  shows "load_products json_load path
           (save_to_json json_dump target_name now products path fs) = Inr products"
  by (simp add: load_products_def save_to_json_def Let_def assms)

text \<open>
  Claim C9. \<open>save_to_json\<close> stores the product list under the key that the loading step
  of \<open>enrich_from_file\<close> reads, and both use \<open>output/products_raw.json\<close> when no path is
  given. So whenever \<open>json.load\<close> reads back the document that \<open>json.dump\<close> wrote, loading
  after saving on the same path returns the product list that was saved, every field of
  every product as it was; and with the conversion table of the library this is so for
  every product list.
\<close>

theorem save_load_round_trip:
  "(json_load (json_dump \<lparr> doc_metadata = Some \<lparr> target = target_name,
                 total_products = length products, meta_scraped_at = now \<rparr>,
              doc_products = Some products \<rparr>)
      = Some \<lparr> doc_metadata = Some \<lparr> target = target_name,
                 total_products = length products, meta_scraped_at = now \<rparr>,
              doc_products = Some products \<rparr> \<longrightarrow>
    load_products json_load path
      (save_to_json json_dump target_name now products path fs) = Inr products)
   \<and> load_products json_document path
       (save_to_json document_json target_name now products path fs) = Inr products"
proof (intro conjI impI)
  show "load_products json_load path
      (save_to_json json_dump target_name now products path fs) = Inr products"
    if "json_load (json_dump \<lparr> doc_metadata = Some \<lparr> target = target_name,
                 total_products = length products, meta_scraped_at = now \<rparr>,
              doc_products = Some products \<rparr>)
      = Some \<lparr> doc_metadata = Some \<lparr> target = target_name,
                 total_products = length products, meta_scraped_at = now \<rparr>,
              doc_products = Some products \<rparr>"
    using that by (rule save_then_load)
  show "load_products json_document path
       (save_to_json document_json target_name now products path fs) = Inr products"
    by (rule save_then_load) (rule json_document_inverse)
qed

text \<open>
  The theorem at one product saved and loaded on the default path of an empty file
  system, read and written by the conversion table.
\<close>

theorem save_load_round_trip_witness:
  "json_document (document_json \<lparr> doc_metadata = Some \<lparr> target = ''books_toscrape'',
         total_products = length [sample_product ''books_toscrape_1'' (Some 51.77)],
         meta_scraped_at = ''2024-01-01T00:00:00'' \<rparr>,
       doc_products = Some [sample_product ''books_toscrape_1'' (Some 51.77)] \<rparr>)
     = Some \<lparr> doc_metadata = Some \<lparr> target = ''books_toscrape'',
         total_products = length [sample_product ''books_toscrape_1'' (Some 51.77)],
         meta_scraped_at = ''2024-01-01T00:00:00'' \<rparr>,
       doc_products = Some [sample_product ''books_toscrape_1'' (Some 51.77)] \<rparr>
   \<and> load_products json_document None
       (save_to_json document_json ''books_toscrape'' ''2024-01-01T00:00:00''
          [sample_product ''books_toscrape_1'' (Some 51.77)] None Map.empty)
     = Inr [sample_product ''books_toscrape_1'' (Some 51.77)]"
proof -
  have h: "json_document (document_json \<lparr> doc_metadata = Some \<lparr> target = ''books_toscrape'',
         total_products = length [sample_product ''books_toscrape_1'' (Some 51.77)],
         meta_scraped_at = ''2024-01-01T00:00:00'' \<rparr>,
       doc_products = Some [sample_product ''books_toscrape_1'' (Some 51.77)] \<rparr>)
     = Some \<lparr> doc_metadata = Some \<lparr> target = ''books_toscrape'',
         total_products = length [sample_product ''books_toscrape_1'' (Some 51.77)],
         meta_scraped_at = ''2024-01-01T00:00:00'' \<rparr>,
       doc_products = Some [sample_product ''books_toscrape_1'' (Some 51.77)] \<rparr>"
    by (simp add: document_json_def opt_key_def get_opt_def metadata_json_def get_str_def
        get_nat_def product_json_def opt_num_def get_num_def get_obj_def get_opt_str_def
        sample_product_def)
  from save_load_round_trip [of json_document document_json "''books_toscrape''"
      "[sample_product ''books_toscrape_1'' (Some 51.77)]" "''2024-01-01T00:00:00''"
      None Map.empty, THEN conjunct1, THEN mp, OF h] h
  show ?thesis by (intro conjI)
qed

lemma load_missing_file:
  "fs (path_or_default path) = None \<Longrightarrow> load_products json_load path fs = Inl FileNotFoundError"
  by (simp add: load_products_def Let_def)

end
